theory Spec2Isabelle
  imports Complex_Main "HOL-Library.Word" "HOL-Library.Multiset"
begin

unbundle bit_operations_syntax

section \<open>Records (node.hpp)\<close>

text \<open>
  \<^verbatim>\<open>uint64_t\<close> and \<^verbatim>\<open>size_t\<close> are 64-bit words whose arithmetic wraps; \<^verbatim>\<open>int\<close> is a 32-bit
  word read as two's complement (compared with \<open>\<le>s\<close> and \<open><s\<close>).  A \<^verbatim>\<open>double\<close> is a real
  number: the payload is only stored and handed back, never computed with.
\<close>

type_synonym u64 = "64 word"
type_synonym i32 = "32 word"

record Node =
  node_value :: real
  priority :: i32
  timestamp_ns :: u64
  expiry_time_ns :: u64

text \<open>
  \<^verbatim>\<open>Node::is_expired\<close> reads the clock once; the reading is the argument \<open>now_ns\<close>.
  The subtraction is on \<^verbatim>\<open>uint64_t\<close>.
\<close>

definition is_expired :: "Node \<Rightarrow> u64 \<Rightarrow> bool" where
  "is_expired n now_ns = (expiry_time_ns n < now_ns - timestamp_ns n)"

text \<open>
  \<^verbatim>\<open>static_cast<uint64_t>(expiry * 1'000'000'000)\<close>: the product is taken exactly and
  truncated towards zero.  The conversion is defined by the language only for products
  in the range of \<^verbatim>\<open>uint64_t\<close>.
\<close>

definition trunc :: "real \<Rightarrow> int" where
  "trunc x = (if 0 \<le> x then \<lfloor>x\<rfloor> else \<lceil>x\<rceil>)"

definition expiry_to_ns :: "real \<Rightarrow> u64" where
  "expiry_to_ns expiry = word_of_int (trunc (expiry * 1000000000))"

text \<open>The constructor \<^verbatim>\<open>Node(val, prio, expiry)\<close>, stamped with one clock reading.\<close>

definition Node_new :: "u64 \<Rightarrow> real \<Rightarrow> i32 \<Rightarrow> real \<Rightarrow> Node" where
  "Node_new now_ns val prio expiry =
     \<lparr>node_value = val, priority = prio, timestamp_ns = now_ns,
      expiry_time_ns = expiry_to_ns expiry\<rparr>"

section \<open>The per-key heap (lockfree\_heap.hpp)\<close>

text \<open>
  A \<^verbatim>\<open>Node*\<close> is the index of the node in the cache's \<^verbatim>\<open>node_pool\<close>; \<^verbatim>\<open>nullptr\<close> is \<open>None\<close>.
  The heap functions read priorities through the pool, which is their first argument.
  The functions are the single-threaded runs of the source: a compare-exchange
  compares and stores in one step, and the weak compare-exchange of \<^verbatim>\<open>push\<close> and
  \<^verbatim>\<open>pop\<close> succeeds on the size it has just loaded.
\<close>

record LockFreeHeap =
  heap :: "nat option list"
  heap_size :: nat  \<comment> \<open>the member \<^verbatim>\<open>size_\<close>\<close>
  capacity :: nat

definition LockFreeHeap_new :: "nat \<Rightarrow> LockFreeHeap" where
  "LockFreeHeap_new initial_capacity =
     \<lparr>heap = replicate initial_capacity None, heap_size = 0, capacity = initial_capacity\<rparr>"

text \<open>\<^verbatim>\<open>compare_exchange_strong\<close> on one cell: the new cells and whether it stored.\<close>

definition compare_exchange ::
  "nat option list \<Rightarrow> nat \<Rightarrow> nat option \<Rightarrow> nat option \<Rightarrow> nat option list \<times> bool" where
  "compare_exchange cells i expected desired =
     (if cells ! i = expected then (cells[i := desired], True) else (cells, False))"

function sift_up :: "Node list \<Rightarrow> LockFreeHeap \<Rightarrow> nat \<Rightarrow> LockFreeHeap" where
  "sift_up pool h index =
     (if index > 0 then
        (let parent = (index - 1) div 2;
             child = heap h ! index;
             parent_node = heap h ! parent
         in case child of
              None \<Rightarrow> h
            | Some c \<Rightarrow>
               (case parent_node of
                  None \<Rightarrow> h
                | Some p \<Rightarrow>
                   if priority (pool ! c) \<le>s priority (pool ! p) then h
                   else
                     (case compare_exchange (heap h) parent parent_node child of
                        (cells1, False) \<Rightarrow> h\<lparr>heap := cells1\<rparr>
                      | (cells1, True) \<Rightarrow>
                         (case compare_exchange cells1 index child parent_node of
                            (cells2, False) \<Rightarrow> h\<lparr>heap := cells2\<rparr>
                          | (cells2, True) \<Rightarrow> sift_up pool (h\<lparr>heap := cells2\<rparr>) parent))))
      else h)"
  by pat_completeness auto
termination
  by (relation "measure (\<lambda>(pool, h, index). index)") auto

declare sift_up.simps [simp del]

text \<open>
  The choice of \<^verbatim>\<open>max_index\<close> in one round of \<^verbatim>\<open>sift_down\<close>.  \<^verbatim>\<open>current->priority\<close> and
  \<^verbatim>\<open>heap[max_index]...->priority\<close> dereference a cell without a null check: on a null
  cell the result is \<open>None\<close>.
\<close>

definition max_child :: "Node list \<Rightarrow> LockFreeHeap \<Rightarrow> nat \<Rightarrow> nat option" where
  "max_child pool h index =
     (let current_size = heap_size h;
          left = 2 * index + 1;
          right = 2 * index + 2;
          current = heap h ! index;
          after_left =
            (if left < current_size then
               (case heap h ! left of
                  None \<Rightarrow> Some index
                | Some l \<Rightarrow>
                   (case current of
                      None \<Rightarrow> None
                    | Some c \<Rightarrow>
                       Some (if priority (pool ! c) <s priority (pool ! l) then left else index)))
             else Some index)
      in case after_left of
           None \<Rightarrow> None
         | Some m \<Rightarrow>
            (if right < current_size then
               (case heap h ! right of
                  None \<Rightarrow> Some m
                | Some r \<Rightarrow>
                   (case heap h ! m of
                      None \<Rightarrow> None
                    | Some n \<Rightarrow>
                       Some (if priority (pool ! n) <s priority (pool ! r) then right else m)))
             else Some m))"

lemma max_child_range:
  "max_child pool h index = Some m \<Longrightarrow>
     m = index \<or> (index < m \<and> m < heap_size h \<and> (m = 2 * index + 1 \<or> m = 2 * index + 2))"
  by (auto simp: max_child_def Let_def split: if_splits option.splits)

text \<open>\<^verbatim>\<open>sift_down\<close>: \<open>None\<close> is the null dereference above.\<close>

function sift_down :: "Node list \<Rightarrow> LockFreeHeap \<Rightarrow> nat \<Rightarrow> LockFreeHeap option" where
  "sift_down pool h index =
     (case max_child pool h index of
        None \<Rightarrow> None
      | Some max_index \<Rightarrow>
         if max_index = index then Some h
         else
           (let current = heap h ! index;
                max_node = heap h ! max_index
            in case compare_exchange (heap h) index current max_node of
                 (cells1, False) \<Rightarrow> Some (h\<lparr>heap := cells1\<rparr>)
               | (cells1, True) \<Rightarrow>
                  (case compare_exchange cells1 max_index max_node current of
                     (cells2, False) \<Rightarrow> Some (h\<lparr>heap := cells2\<rparr>)
                   | (cells2, True) \<Rightarrow> sift_down pool (h\<lparr>heap := cells2\<rparr>) max_index)))"
  by pat_completeness auto
termination
proof (relation "measure (\<lambda>(pool, h, index). heap_size h - index)")
  show "wf (measure (\<lambda>(pool, h, index). heap_size h - index))" by simp
next
  fix pool :: "Node list" and h :: LockFreeHeap and index max_index :: nat
  assume "max_child pool h index = Some max_index" and "max_index \<noteq> index"
  then have "index < max_index \<and> max_index < heap_size h"
    using max_child_range by blast
  then show "\<And>cells. ((pool, h\<lparr>heap := cells\<rparr>, max_index), (pool, h, index))
      \<in> measure (\<lambda>(pool, h, index). heap_size h - index)"
    by auto
qed

declare sift_down.simps [simp del]

text \<open>\<^verbatim>\<open>push\<close>: the heap after the call and the returned flag.\<close>

definition push :: "Node list \<Rightarrow> LockFreeHeap \<Rightarrow> nat \<Rightarrow> LockFreeHeap \<times> bool" where
  "push pool h node =
     (let current_size = heap_size h in
      if current_size \<ge> capacity h then (h, False)
      else
        (sift_up pool
           (h\<lparr>heap_size := current_size + 1, heap := (heap h)[current_size := Some node]\<rparr>)
           current_size,
         True))"

text \<open>
  \<^verbatim>\<open>pop\<close>: the heap after the call and the returned pointer.  With a positive size and a
  null top cell the loop of the source takes \<^verbatim>\<open>continue\<close> for ever (nothing else runs to
  fill the cell): that run, and a null dereference in \<^verbatim>\<open>sift_down\<close>, are \<open>None\<close>.
\<close>

definition pop :: "Node list \<Rightarrow> LockFreeHeap \<Rightarrow> (LockFreeHeap \<times> nat option) option" where
  "pop pool h =
     (let current_size = heap_size h in
      if current_size = 0 then Some (h, None)
      else
        (case heap h ! 0 of
           None \<Rightarrow> None
         | Some top_node \<Rightarrow>
            (let last = heap h ! (current_size - 1);
                 h1 = h\<lparr>heap_size := current_size - 1,
                        heap := (heap h)[current_size - 1 := None]\<rparr>
             in if current_size > 1 then
                  map_option (\<lambda>h2. (h2, Some top_node))
                    (sift_down pool (h1\<lparr>heap := (heap h1)[0 := last]\<rparr>) 0)
                else Some (h1, Some top_node))))"

lemma sift_down_heap_size:
  "sift_down pool h index = Some h' \<Longrightarrow> heap_size h' = heap_size h"
proof (induction pool h index arbitrary: h' rule: sift_down.induct)
  case (1 pool h index)
  from "1.prems" show ?case
    by (subst (asm) sift_down.simps)
      (auto simp: Let_def compare_exchange_def dest!: "1.IH"
            split: option.splits if_splits prod.splits bool.splits)
qed

lemma pop_heap_size:
  "pop pool h = Some (h', r) \<Longrightarrow> 0 < heap_size h \<Longrightarrow> heap_size h' = heap_size h - 1"
  by (auto simp: pop_def Let_def split: option.splits if_splits dest!: sift_down_heap_size)

section \<open>The bucket of one key (midpoint.hpp)\<close>

record MidpointNode =
  nodes :: LockFreeHeap

definition MidpointNode_new :: "nat \<Rightarrow> MidpointNode" where
  "MidpointNode_new cap = \<lparr>nodes = LockFreeHeap_new cap\<rparr>"

definition add_node :: "Node list \<Rightarrow> MidpointNode \<Rightarrow> nat \<Rightarrow> MidpointNode \<times> bool" where
  "add_node pool m node = (case push pool (nodes m) node of (h, ok) \<Rightarrow> (m\<lparr>nodes := h\<rparr>, ok))"

text \<open>
  \<^verbatim>\<open>get_highest_priority_node\<close>.  Each round reads the clock once, in \<^verbatim>\<open>is_expired\<close>:
  round \<open>k\<close> of the call reads \<open>clock k\<close>.  \<^verbatim>\<open>delete node\<close> adds the node to the list of
  freed nodes, which is passed in and returned.  \<open>None\<close> is a run of \<^verbatim>\<open>pop\<close> that does
  not return, or \<^verbatim>\<open>is_expired\<close> called through a null pointer.
\<close>

function get_highest_priority_node ::
  "Node list \<Rightarrow> (nat \<Rightarrow> u64) \<Rightarrow> nat \<Rightarrow> nat list \<Rightarrow> MidpointNode
     \<Rightarrow> (MidpointNode \<times> nat list \<times> nat option) option" where
  "get_highest_priority_node pool clock k freed_nodes m =
     (if heap_size (nodes m) = 0 then Some (m, freed_nodes, None)
      else
        (case pop pool (nodes m) of
           None \<Rightarrow> None
         | Some (h, None) \<Rightarrow> None
         | Some (h, Some node) \<Rightarrow>
            if \<not> is_expired (pool ! node) (clock k) then Some (m\<lparr>nodes := h\<rparr>, freed_nodes, Some node)
            else get_highest_priority_node pool clock (Suc k) (freed_nodes @ [node])
                   (m\<lparr>nodes := h\<rparr>)))"
  by pat_completeness auto
termination
  by (relation "measure (\<lambda>(pool, clock, k, freed_nodes, m). heap_size (nodes m))")
    (auto dest: pop_heap_size)

declare get_highest_priority_node.simps [simp del]

section \<open>The key index (lockfree\_map.hpp)\<close>

definition FNV_PRIME :: u64 where "FNV_PRIME = 0x100000001b3"
definition FNV_OFFSET :: u64 where "FNV_OFFSET = 0xcbf29ce484222325"
definition BUCKETS :: nat where "BUCKETS = 64"

text \<open>
  \<^verbatim>\<open>static_cast<uint64_t>(c)\<close> for a \<^verbatim>\<open>char c\<close>: sign-extended where \<^verbatim>\<open>char\<close> is signed
  (x86-64), zero-extended where it is unsigned (AArch64).  The flag says which.
\<close>

definition char_to_u64 :: "bool \<Rightarrow> char \<Rightarrow> u64" where
  "char_to_u64 char_signed c =
     (if char_signed then scast (of_char c :: 8 word) else ucast (of_char c :: 8 word))"

definition hash :: "bool \<Rightarrow> string \<Rightarrow> nat" where
  "hash char_signed key =
     unat (fold (\<lambda>c h. (h XOR char_to_u64 char_signed c) * FNV_PRIME) key FNV_OFFSET
           mod word_of_nat BUCKETS)"

definition char_is_signed :: bool where
  "char_is_signed = True"

text \<open>
  A shard is the list of its \<^verbatim>\<open>BucketNode\<close>s from the head: the key and the \<^verbatim>\<open>value\<close>
  pointer, which is the address of the \<^verbatim>\<open>MidpointNode\<close> in \<open>midpoint_store\<close> (the objects
  made by \<^verbatim>\<open>new MidpointNode\<close>, in the order of their allocation).
\<close>

record LockFreeHashTable =
  buckets :: "(string \<times> nat) list list"
  midpoint_store :: "MidpointNode list"

definition LockFreeHashTable_new :: "nat \<Rightarrow> LockFreeHashTable" where
  "LockFreeHashTable_new capacity_per_bucket =
     \<lparr>buckets = replicate BUCKETS [], midpoint_store = []\<rparr>"

text \<open>The traversal \<^verbatim>\<open>while (head) { if (head->key == key) return head->value; ... }\<close>.\<close>

fun traverse :: "(string \<times> nat) list \<Rightarrow> string \<Rightarrow> nat option" where
  "traverse [] key = None"
| "traverse ((k, v) # next) key = (if k = key then Some v else traverse next key)"

text \<open>
  \<^verbatim>\<open>get_or_create\<close>, run by one thread: the compare-exchange on the shard head stores.
\<close>

definition get_or_create ::
  "LockFreeHashTable \<Rightarrow> string \<Rightarrow> nat \<Rightarrow> LockFreeHashTable \<times> nat" where
  "get_or_create t key cap =
     (let index = hash char_is_signed key in
      case traverse (buckets t ! index) key of
        Some v \<Rightarrow> (t, v)
      | None \<Rightarrow>
         (let new_value = length (midpoint_store t);
              head = buckets t ! index
          in (t\<lparr>buckets := (buckets t)[index := (key, new_value) # head],
                midpoint_store := midpoint_store t @ [MidpointNode_new cap]\<rparr>,
              new_value)))"

definition get :: "LockFreeHashTable \<Rightarrow> string \<Rightarrow> nat option" where
  "get t key = traverse (buckets t ! hash char_is_signed key) key"

section \<open>get\_or\_create by several threads\<close>

text \<open>
  \<^verbatim>\<open>get_or_create\<close> run by several threads.  A thread is at one of four points of the
  function: before the traversal; after the traversal has found nothing and
  \<^verbatim>\<open>new BucketNode\<close> has made the node (whose \<^verbatim>\<open>value\<close> is the given address); after
  \<^verbatim>\<open>head = buckets[index].load()\<close> and \<^verbatim>\<open>new_node->next.store(head)\<close>, with the head it
  has loaded; after \<^verbatim>\<open>return\<close>, with the pointer it has returned.  A step of a thread is
  atomic.  The nodes reachable from a loaded head never change, so the traversal is one
  step; a head pointer is the list of the nodes behind it, and two heads are the same
  pointer exactly when the lists are equal, since every node has its own address.
\<close>

datatype goc_pc = Start | Allocated nat | Loaded nat "(string \<times> nat) list" | Done nat

fun goc_step :: "string \<Rightarrow> nat \<Rightarrow> LockFreeHashTable \<Rightarrow> goc_pc \<Rightarrow> LockFreeHashTable \<times> goc_pc" where
  "goc_step key cap t Start =
     (case traverse (buckets t ! hash char_is_signed key) key of
        Some v \<Rightarrow> (t, Done v)
      | None \<Rightarrow>
         (t\<lparr>midpoint_store := midpoint_store t @ [MidpointNode_new cap]\<rparr>,
          Allocated (length (midpoint_store t))))"
| "goc_step key cap t (Allocated new_value) =
     (t, Loaded new_value (buckets t ! hash char_is_signed key))"
| "goc_step key cap t (Loaded new_value head) =
     (if buckets t ! hash char_is_signed key = head
      then (t\<lparr>buckets := (buckets t)[hash char_is_signed key := (key, new_value) # head]\<rparr>,
            Done new_value)
      else (t, Allocated new_value))"
| "goc_step key cap t (Done v) = (t, Done v)"

text \<open>
  Threads \<open>0, 1, ...\<close> each call \<^verbatim>\<open>get_or_create\<close> with the arguments \<open>calls ! i\<close>; the
  schedule lists the threads in the order in which they take their steps.
\<close>

fun interleave ::
  "(string \<times> nat) list \<Rightarrow> nat list \<Rightarrow> LockFreeHashTable \<times> goc_pc list
     \<Rightarrow> LockFreeHashTable \<times> goc_pc list" where
  "interleave calls [] s = s"
| "interleave calls (i # schedule) (t, pcs) =
     (case goc_step (fst (calls ! i)) (snd (calls ! i)) t (pcs ! i) of
        (t1, pc) \<Rightarrow> interleave calls schedule (t1, pcs[i := pc]))"

section \<open>The cache (radial\_circular\_list.cpp)\<close>

text \<open>
  \<open>freed\<close> lists the pool nodes that \<^verbatim>\<open>get_highest_priority_node\<close> has passed to
  \<^verbatim>\<open>delete\<close>, in order.  The source has no such member: it is the part of the allocator's
  state that the calls change.
\<close>

record RadialCircularList =
  midpoints :: LockFreeHashTable
  max_nodes :: u64
  total_nodes :: u64
  node_pool :: "Node list"
  pool_index :: u64
  freed :: "nat list"

text \<open>The constructor; pool node \<open>i\<close> is stamped with the clock reading \<open>clock i\<close>.\<close>

definition RadialCircularList_new :: "(nat \<Rightarrow> u64) \<Rightarrow> u64 \<Rightarrow> RadialCircularList" where
  "RadialCircularList_new clock max_n =
     \<lparr>midpoints = LockFreeHashTable_new (unat (max_n div 10)),
      max_nodes = max_n,
      total_nodes = 0,
      node_pool = map (\<lambda>i. Node_new (clock i) 0 0 60) [0..<unat max_n],
      pool_index = 0,
      freed = []\<rparr>"

text \<open>
  The part that \<^verbatim>\<open>insert\<close> and the loop of \<^verbatim>\<open>insert_batch\<close> have in common: write the
  four fields of pool node \<open>node\<close>, find or make the bucket of the key, push the node.
\<close>

definition write_and_push ::
  "RadialCircularList \<Rightarrow> u64 \<Rightarrow> nat \<Rightarrow> real \<Rightarrow> string \<Rightarrow> i32 \<Rightarrow> real
     \<Rightarrow> RadialCircularList \<times> bool" where
  "write_and_push c now_ns node val midpoint prio expiry_time =
     (let c1 = c\<lparr>node_pool := (node_pool c)[node :=
                   \<lparr>node_value = val, priority = prio, timestamp_ns = now_ns,
                    expiry_time_ns = expiry_to_ns expiry_time\<rparr>]\<rparr>
      in case get_or_create (midpoints c1) midpoint (unat (max_nodes c1 div 10)) of
           (t, m) \<Rightarrow>
             (case add_node (node_pool c1) (midpoint_store t ! m) node of
                (mid, ok) \<Rightarrow>
                  (c1\<lparr>midpoints := t\<lparr>midpoint_store := (midpoint_store t)[m := mid]\<rparr>\<rparr>, ok)))"

definition insert_cache ::
  "RadialCircularList \<Rightarrow> u64 \<Rightarrow> real \<Rightarrow> string \<Rightarrow> i32 \<Rightarrow> real \<Rightarrow> RadialCircularList \<times> bool" where
  "insert_cache c now_ns val midpoint prio expiry_time =
     (let current_nodes = total_nodes c in
      if current_nodes \<ge> max_nodes c then (c, False)
      else
        (let index = pool_index c;
             c1 = c\<lparr>pool_index := index + 1\<rparr>
         in if index \<ge> max_nodes c then (c1, False)
            else
              (case write_and_push c1 now_ns (unat index) val midpoint prio expiry_time of
                 (c2, True) \<Rightarrow> (c2\<lparr>total_nodes := total_nodes c2 + 1\<rparr>, True)
               | (c2, False) \<Rightarrow> (c2, False))))"

text \<open>The loop of \<^verbatim>\<open>insert_batch\<close>; item \<open>i\<close> is stamped with \<open>clock i\<close>.\<close>

fun insert_batch_loop ::
  "RadialCircularList \<Rightarrow> (nat \<Rightarrow> u64) \<Rightarrow> u64 \<Rightarrow> nat \<Rightarrow> (real \<times> string \<times> i32 \<times> real) list
     \<Rightarrow> RadialCircularList" where
  "insert_batch_loop c clock start_index i [] = c"
| "insert_batch_loop c clock start_index i ((val, midpoint, prio, expiry_time) # rest) =
     insert_batch_loop
       (fst (write_and_push c (clock i) (unat (start_index + word_of_nat i))
               val midpoint prio expiry_time))
       clock start_index (Suc i) rest"

definition insert_batch ::
  "RadialCircularList \<Rightarrow> (nat \<Rightarrow> u64) \<Rightarrow> (real \<times> string \<times> i32 \<times> real) list
     \<Rightarrow> RadialCircularList \<times> bool" where
  "insert_batch c clock batch =
     (let batch_size = (word_of_nat (length batch) :: u64);
          current_nodes = total_nodes c
      in if current_nodes + batch_size > max_nodes c then (c, False)
         else
           (let start_index = pool_index c;
                c1 = c\<lparr>pool_index := start_index + batch_size\<rparr>
            in if start_index + batch_size > max_nodes c then (c1, False)
               else
                 (let c2 = insert_batch_loop c1 clock start_index 0 batch
                  in (c2\<lparr>total_nodes := total_nodes c2 + batch_size\<rparr>, True))))"

definition get_highest_priority ::
  "RadialCircularList \<Rightarrow> (nat \<Rightarrow> u64) \<Rightarrow> string \<Rightarrow> (RadialCircularList \<times> nat option) option" where
  "get_highest_priority c clock midpoint =
     (case get (midpoints c) midpoint of
        None \<Rightarrow> Some (c, None)
      | Some m \<Rightarrow>
         (case get_highest_priority_node (node_pool c) clock 0 (freed c)
                 (midpoint_store (midpoints c) ! m) of
            None \<Rightarrow> None
          | Some (mid, freed_nodes, r) \<Rightarrow>
             Some (c\<lparr>midpoints :=
                       (midpoints c)\<lparr>midpoint_store := (midpoint_store (midpoints c))[m := mid]\<rparr>,
                     freed := freed_nodes\<rparr>,
                   r)))"

text \<open>\<^verbatim>\<open>get_highest_priority_batch\<close>; the call for key \<open>i\<close> reads the clock \<open>clocks i\<close>.\<close>

fun get_highest_priority_batch_loop ::
  "RadialCircularList \<Rightarrow> (nat \<Rightarrow> nat \<Rightarrow> u64) \<Rightarrow> nat \<Rightarrow> string list
     \<Rightarrow> (RadialCircularList \<times> nat option list) option" where
  "get_highest_priority_batch_loop c clocks i [] = Some (c, [])"
| "get_highest_priority_batch_loop c clocks i (midpoint # rest) =
     (case get_highest_priority c (clocks i) midpoint of
        None \<Rightarrow> None
      | Some (c1, r) \<Rightarrow>
         (case get_highest_priority_batch_loop c1 clocks (Suc i) rest of
            None \<Rightarrow> None
          | Some (c2, rs) \<Rightarrow> Some (c2, r # rs)))"

definition get_highest_priority_batch ::
  "RadialCircularList \<Rightarrow> (nat \<Rightarrow> nat \<Rightarrow> u64) \<Rightarrow> string list
     \<Rightarrow> (RadialCircularList \<times> nat option list) option" where
  "get_highest_priority_batch c clocks midpoints_batch =
     get_highest_priority_batch_loop c clocks 0 midpoints_batch"

section \<open>Sequences of calls\<close>

text \<open>
  A single-threaded client is a list of calls on one cache.  Each call carries the clock
  readings it will see.  \<open>run\<close> is \<open>None\<close> when a call does not return.
\<close>

datatype call =
    is_Insert: Insert u64 real string i32 real
  | is_InsertBatch: InsertBatch "nat \<Rightarrow> u64" "(real \<times> string \<times> i32 \<times> real) list"
  | is_GetHighestPriority: GetHighestPriority "nat \<Rightarrow> u64" string
  | is_GetHighestPriorityBatch: GetHighestPriorityBatch "nat \<Rightarrow> nat \<Rightarrow> u64" "string list"

datatype reply = Flag bool | Ptr "nat option" | Ptrs "nat option list"

fun step :: "RadialCircularList \<Rightarrow> call \<Rightarrow> (RadialCircularList \<times> reply) option" where
  "step c (Insert now_ns val midpoint prio expiry_time) =
     (case insert_cache c now_ns val midpoint prio expiry_time of (c1, ok) \<Rightarrow> Some (c1, Flag ok))"
| "step c (InsertBatch clock batch) =
     (case insert_batch c clock batch of (c1, ok) \<Rightarrow> Some (c1, Flag ok))"
| "step c (GetHighestPriority clock midpoint) =
     map_option (\<lambda>(c1, r). (c1, Ptr r)) (get_highest_priority c clock midpoint)"
| "step c (GetHighestPriorityBatch clocks midpoints_batch) =
     map_option (\<lambda>(c1, rs). (c1, Ptrs rs)) (get_highest_priority_batch c clocks midpoints_batch)"

fun run :: "RadialCircularList \<Rightarrow> call list \<Rightarrow> (RadialCircularList \<times> reply list) option" where
  "run c [] = Some (c, [])"
| "run c (x # xs) =
     (case step c x of
        None \<Rightarrow> None
      | Some (c1, r) \<Rightarrow>
         (case run c1 xs of None \<Rightarrow> None | Some (c2, rs) \<Rightarrow> Some (c2, r # rs)))"

text \<open>The pool nodes that a reply hands to the caller, and those of a list of replies.\<close>

fun ptr_nodes :: "nat option \<Rightarrow> nat list" where
  "ptr_nodes None = []"
| "ptr_nodes (Some node) = [node]"

fun reply_nodes :: "reply \<Rightarrow> nat list" where
  "reply_nodes (Flag ok) = []"
| "reply_nodes (Ptr r) = ptr_nodes r"
| "reply_nodes (Ptrs rs) = concat (map ptr_nodes rs)"

definition returned :: "reply list \<Rightarrow> nat list" where
  "returned rs = concat (map reply_nodes rs)"

text \<open>
  The records that a call offers to the cache under a key: the four fields as the call
  would write them.
\<close>

fun offered_by :: "string \<Rightarrow> call \<Rightarrow> Node list" where
  "offered_by key (Insert now_ns val midpoint prio expiry_time) =
     (if midpoint = key
      then [\<lparr>node_value = val, priority = prio, timestamp_ns = now_ns,
             expiry_time_ns = expiry_to_ns expiry_time\<rparr>]
      else [])"
| "offered_by key (InsertBatch clock batch) =
     concat (map (\<lambda>(i, val, midpoint, prio, expiry_time).
                    if midpoint = key
                    then [\<lparr>node_value = val, priority = prio, timestamp_ns = clock i,
                           expiry_time_ns = expiry_to_ns expiry_time\<rparr>]
                    else [])
                 (enumerate 0 batch))"
| "offered_by key (GetHighestPriority clock midpoint) = []"
| "offered_by key (GetHighestPriorityBatch clocks midpoints_batch) = []"

text \<open>
  The records that the cache has accepted under a key: those of the calls of \<^verbatim>\<open>insert\<close>
  and \<^verbatim>\<open>insert_batch\<close> that have returned \<^verbatim>\<open>true\<close>.
\<close>

fun accepted_by :: "string \<Rightarrow> call \<Rightarrow> reply \<Rightarrow> Node list" where
  "accepted_by key x (Flag ok) = (if ok then offered_by key x else [])"
| "accepted_by key x (Ptr r) = []"
| "accepted_by key x (Ptrs rs) = []"

definition accepted :: "string \<Rightarrow> call list \<Rightarrow> reply list \<Rightarrow> Node list" where
  "accepted key calls replies =
     concat (map (\<lambda>(x, r). accepted_by key x r) (zip calls replies))"

text \<open>The number of pool slots that a call asks for.\<close>

fun requested_by :: "call \<Rightarrow> nat" where
  "requested_by (Insert now_ns val midpoint prio expiry_time) = 1"
| "requested_by (InsertBatch clock batch) = length batch"
| "requested_by (GetHighestPriority clock midpoint) = 0"
| "requested_by (GetHighestPriorityBatch clocks midpoints_batch) = 0"

definition requested :: "call list \<Rightarrow> nat" where
  "requested calls = sum_list (map requested_by calls)"

section \<open>FNV-1a as the specification words it\<close>

text \<open>
  The 64-bit FNV-1a hash of a byte sequence, written from the specification: start at
  the offset basis; for each byte, exclusive-or it into the low bits, then multiply by the
  prime modulo \<open>2 ^ 64\<close>.  The bytes of a key are the characters of the \<^verbatim>\<open>std::string\<close>.
\<close>

definition fnv1a_64 :: "8 word list \<Rightarrow> u64" where
  "fnv1a_64 bytes = fold (\<lambda>b h. (h XOR ucast b) * 0x100000001b3) bytes 0xcbf29ce484222325"

definition utf8_bytes :: "string \<Rightarrow> 8 word list" where
  "utf8_bytes key = map of_char key"

section \<open>The heap between calls\<close>

text \<open>
  The cells of a heap that no call is running on: exactly the first \<open>heap_size\<close> cells
  hold a node.  \<open>slots\<close> is the multiset of the nodes in the cells.
\<close>

definition heap_inv :: "LockFreeHeap \<Rightarrow> bool" where
  "heap_inv h \<longleftrightarrow>
     length (heap h) = capacity h \<and> heap_size h \<le> capacity h \<and>
     (\<forall>i < capacity h. heap h ! i = None \<longleftrightarrow> heap_size h \<le> i)"

definition slots :: "LockFreeHeap \<Rightarrow> nat multiset" where
  "slots h = image_mset the (filter_mset (\<lambda>x. x \<noteq> None) (mset (heap h)))"

text \<open>Two heaps that differ by exchanging non-null cells.\<close>

definition heap_equiv :: "LockFreeHeap \<Rightarrow> LockFreeHeap \<Rightarrow> bool" where
  "heap_equiv h h' \<longleftrightarrow>
     heap_size h' = heap_size h \<and> capacity h' = capacity h \<and>
     length (heap h') = length (heap h) \<and> mset (heap h') = mset (heap h) \<and>
     (\<forall>i < length (heap h). heap h' ! i = None \<longleftrightarrow> heap h ! i = None)"

lemma heap_equiv_refl: "heap_equiv h h"
  by (simp add: heap_equiv_def)

lemma heap_equiv_trans: "heap_equiv h1 h2 \<Longrightarrow> heap_equiv h2 h3 \<Longrightarrow> heap_equiv h1 h3"
  by (simp add: heap_equiv_def)

lemma heap_equiv_swap:
  assumes "i < length (heap h)" "j < length (heap h)" "heap h ! i = Some a" "heap h ! j = Some b"
  shows "heap_equiv h (h\<lparr>heap := (heap h)[i := Some b, j := Some a]\<rparr>)"
proof -
  have "mset ((heap h)[i := heap h ! j, j := heap h ! i]) = mset (heap h)"
    by (rule mset_swap [OF assms(2) assms(1)])
  then show ?thesis
    using assms by (auto simp: heap_equiv_def nth_list_update)
qed

lemma heap_equiv_inv: "heap_equiv h h' \<Longrightarrow> heap_inv h \<Longrightarrow> heap_inv h'"
  by (auto simp: heap_equiv_def heap_inv_def)

lemma heap_equiv_slots: "heap_equiv h h' \<Longrightarrow> slots h' = slots h"
  by (simp add: heap_equiv_def slots_def)

definition sift_up_swaps :: "Node list \<Rightarrow> LockFreeHeap \<Rightarrow> nat \<Rightarrow> bool" where
  "sift_up_swaps pool h index \<longleftrightarrow>
     0 < index \<and>
     (\<exists>c p. heap h ! index = Some c \<and> heap h ! ((index - 1) div 2) = Some p \<and>
            \<not> priority (pool ! c) \<le>s priority (pool ! p))"

lemma sift_up_unfold:
  "sift_up pool h index =
     (if sift_up_swaps pool h index
      then sift_up pool
             (h\<lparr>heap := (heap h)[(index - 1) div 2 := heap h ! index,
                                 index := heap h ! ((index - 1) div 2)]\<rparr>)
             ((index - 1) div 2)
      else h)"
proof (cases "index = 0")
  case True
  then show ?thesis
    by (subst sift_up.simps) (simp add: sift_up_swaps_def)
next
  case False
  then have neq: "(index - 1) div 2 \<noteq> index" by auto
  show ?thesis
  proof (cases "heap h ! index")
    case None
    then show ?thesis
      using False by (subst sift_up.simps) (simp add: sift_up_swaps_def)
  next
    case c: (Some c)
    show ?thesis
    proof (cases "heap h ! ((index - 1) div 2)")
      case None
      then show ?thesis
        using False c by (subst sift_up.simps) (simp add: sift_up_swaps_def)
    next
      case p: (Some p)
      show ?thesis
        using False c p neq
        by (subst sift_up.simps) (simp add: sift_up_swaps_def compare_exchange_def Let_def)
    qed
  qed
qed

lemma sift_up_equiv:
  "index < length (heap h) \<Longrightarrow> heap_equiv h (sift_up pool h index)"
proof (induction index arbitrary: h rule: less_induct)
  case (less index)
  show ?case
  proof (cases "sift_up_swaps pool h index")
    case False
    then show ?thesis
      by (subst sift_up_unfold) (simp add: heap_equiv_refl)
  next
    case True
    then obtain c p where cp: "index > 0" "heap h ! index = Some c"
      "heap h ! ((index - 1) div 2) = Some p"
      by (auto simp: sift_up_swaps_def)
    let ?parent = "(index - 1) div 2"
    let ?h' = "h\<lparr>heap := (heap h)[?parent := heap h ! index, index := heap h ! ?parent]\<rparr>"
    have lt: "?parent < index" using cp(1) by auto
    then have plen: "?parent < length (heap h)" using less.prems by simp
    have e1: "heap_equiv h ?h'"
      using heap_equiv_swap [OF plen less.prems cp(3) cp(2)] cp by simp
    have "heap_equiv ?h' (sift_up pool ?h' ?parent)"
      using plen by (intro less.IH [OF lt]) simp
    then have "heap_equiv h (sift_up pool ?h' ?parent)"
      using e1 heap_equiv_trans by blast
    then show ?thesis
      using True by (subst sift_up_unfold) simp
  qed
qed

lemma max_child_cells:
  "max_child pool h index = Some m \<Longrightarrow> m \<noteq> index \<Longrightarrow>
     heap h ! m \<noteq> None \<and> heap h ! index \<noteq> None"
  by (auto simp: max_child_def Let_def split: if_splits option.splits)

lemma max_child_no_fault:
  "heap h ! index \<noteq> None \<Longrightarrow> max_child pool h index \<noteq> None"
  by (auto simp: max_child_def Let_def split: if_splits option.splits)

lemma sift_down_unfold:
  "sift_down pool h index =
     (case max_child pool h index of
        None \<Rightarrow> None
      | Some m \<Rightarrow>
         if m = index then Some h
         else sift_down pool
                (h\<lparr>heap := (heap h)[index := heap h ! m, m := heap h ! index]\<rparr>) m)"
  by (subst sift_down.simps) (simp add: compare_exchange_def Let_def split: option.split)

lemma sift_down_equiv:
  "heap h ! index \<noteq> None \<Longrightarrow> heap_size h \<le> length (heap h) \<Longrightarrow> index < length (heap h) \<Longrightarrow>
     \<exists>h'. sift_down pool h index = Some h' \<and> heap_equiv h h'"
proof (induction "heap_size h - index" arbitrary: h index rule: less_induct)
  case less
  obtain m where m: "max_child pool h index = Some m"
    using max_child_no_fault [OF less.prems(1)] by blast
  show ?case
  proof (cases "m = index")
    case True
    then show ?thesis
      using m by (subst sift_down_unfold) (simp add: heap_equiv_refl)
  next
    case False
    from max_child_range [OF m] False
    have range: "index < m" "m < heap_size h" by auto
    from max_child_cells [OF m False]
    obtain a b where ab: "heap h ! m = Some a" "heap h ! index = Some b" by auto
    let ?h' = "h\<lparr>heap := (heap h)[index := heap h ! m, m := heap h ! index]\<rparr>"
    have mlen: "m < length (heap h)" using range less.prems(2) by simp
    have e1: "heap_equiv h ?h'"
      using heap_equiv_swap [OF less.prems(3) mlen ab(2) ab(1)] ab by simp
    have "\<exists>h''. sift_down pool ?h' m = Some h'' \<and> heap_equiv ?h' h''"
      using range mlen less.prems ab
      by (intro less.hyps) auto
    then obtain h'' where h'': "sift_down pool ?h' m = Some h''" "heap_equiv ?h' h''"
      by blast
    have "sift_down pool h index = Some h''"
      using m False h''(1) by (subst sift_down_unfold) simp
    then show ?thesis
      using e1 h''(2) heap_equiv_trans by blast
  qed
qed

lemma heap_inv_cell:
  "heap_inv h \<Longrightarrow> i < heap_size h \<Longrightarrow> \<exists>x. heap h ! i = Some x"
  unfolding heap_inv_def by (cases "heap h ! i") (auto dest!: spec [of _ i])

lemma heap_inv_empty_cell:
  "heap_inv h \<Longrightarrow> heap_size h \<le> i \<Longrightarrow> i < capacity h \<Longrightarrow> heap h ! i = None"
  unfolding heap_inv_def by blast

lemma slots_of_mset:
  "mset (heap h) = add_mset None M \<Longrightarrow> slots h = image_mset the (filter_mset (\<lambda>x. x \<noteq> None) M)"
  "mset (heap h) = add_mset (Some node) M \<Longrightarrow>
     slots h = add_mset node (image_mset the (filter_mset (\<lambda>x. x \<noteq> None) M))"
  by (simp_all add: slots_def)

lemma slots_update_None_to_Some:
  assumes "i < length (heap h)" "heap h ! i = None" "heap h' = (heap h)[i := Some node]"
  shows "slots h' = add_mset node (slots h)"
proof -
  have "None \<in># mset (heap h)"
    using assms by (metis nth_mem set_mset_mset)
  then obtain M where M: "mset (heap h) = add_mset None M"
    by (meson multi_member_split)
  have "mset (heap h') = add_mset (Some node) M"
    using assms M by (simp add: mset_update)
  then have "slots h' = add_mset node (image_mset the (filter_mset (\<lambda>x. x \<noteq> None) M))"
    by (rule slots_of_mset(2))
  then show ?thesis
    using slots_of_mset(1) [OF M] by simp
qed

lemma slots_update_Some_to_None:
  assumes "i < length (heap h)" "heap h ! i = Some node" "heap h' = (heap h)[i := None]"
  shows "add_mset node (slots h') = slots h"
proof -
  have "Some node \<in># mset (heap h)"
    using assms by (metis nth_mem set_mset_mset)
  then obtain M where M: "mset (heap h) = add_mset (Some node) M"
    by (meson multi_member_split)
  have "mset (heap h') = add_mset None M"
    using assms M by (simp add: mset_update)
  then have "slots h' = image_mset the (filter_mset (\<lambda>x. x \<noteq> None) M)"
    by (rule slots_of_mset(1))
  then show ?thesis
    using slots_of_mset(2) [OF M] by simp
qed

lemma push_spec:
  assumes "heap_inv h" "push pool h node = (h', ok)"
  shows "heap_inv h' \<and> capacity h' = capacity h \<and> (ok \<longleftrightarrow> heap_size h < capacity h)
       \<and> slots h' = (if ok then add_mset node (slots h) else slots h)
       \<and> heap_size h' = (if ok then heap_size h + 1 else heap_size h)"
proof (cases "heap_size h \<ge> capacity h")
  case True
  then show ?thesis using assms by (simp add: push_def)
next
  case False
  let ?h1 = "h\<lparr>heap_size := heap_size h + 1, heap := (heap h)[heap_size h := Some node]\<rparr>"
  from False assms(1) have lt: "heap_size h < length (heap h)" and none: "heap h ! heap_size h = None"
    by (auto simp: heap_inv_def)
  have inv1: "heap_inv ?h1"
    using assms(1) False by (auto simp: heap_inv_def nth_list_update)
  have sl: "slots ?h1 = add_mset node (slots h)"
    by (rule slots_update_None_to_Some [OF lt none]) simp
  have eqv: "heap_equiv ?h1 (sift_up pool ?h1 (heap_size h))"
    using lt by (intro sift_up_equiv) simp
  have res: "h' = sift_up pool ?h1 (heap_size h)" "ok"
    using assms(2) False by (auto simp: push_def Let_def)
  show ?thesis
    using heap_equiv_inv [OF eqv inv1] heap_equiv_slots [OF eqv] sl res False eqv
    by (simp add: heap_equiv_def)
qed

lemma pop_spec:
  assumes "heap_inv h" "0 < heap_size h"
  shows "\<exists>h' top_node. pop pool h = Some (h', Some top_node) \<and> heap_inv h'
       \<and> capacity h' = capacity h \<and> heap_size h' = heap_size h - 1
       \<and> slots h = add_mset top_node (slots h')"
proof -
  let ?n = "heap_size h"
  from assms have len: "?n \<le> length (heap h)" "0 < length (heap h)"
    by (auto simp: heap_inv_def)
  from assms obtain top_node where top: "heap h ! 0 = Some top_node"
    using heap_inv_cell by blast
  from assms obtain last where last: "heap h ! (?n - 1) = Some last"
    using heap_inv_cell [of h "?n - 1"] by auto
  let ?h1 = "h\<lparr>heap_size := ?n - 1, heap := (heap h)[?n - 1 := None]\<rparr>"
  have inv1: "heap_inv ?h1"
    unfolding heap_inv_def
  proof (intro conjI allI impI)
    fix i assume "i < capacity ?h1"
    then have i: "i < capacity h" by simp
    show "heap ?h1 ! i = None \<longleftrightarrow> heap_size ?h1 \<le> i"
    proof (cases "i = ?n - 1")
      case True
      then show ?thesis using i assms by (simp add: heap_inv_def)
    next
      case False
      then have "heap ?h1 ! i = heap h ! i" by simp
      moreover have "heap h ! i = None \<longleftrightarrow> ?n \<le> i"
        using assms(1) i by (simp add: heap_inv_def)
      ultimately show ?thesis using False by auto
    qed
  qed (use assms in \<open>auto simp: heap_inv_def\<close>)
  have sl1: "add_mset last (slots ?h1) = slots h"
    using len assms(2) last by (intro slots_update_Some_to_None [where i = "?n - 1"]) auto
  show ?thesis
  proof (cases "?n > 1")
    case False
    then have "?n = 1" using assms(2) by simp
    then show ?thesis
      using top last inv1 sl1 by (simp add: pop_def Let_def)
  next
    case True
    let ?h2 = "?h1\<lparr>heap := (heap ?h1)[0 := Some last]\<rparr>"
    have c0: "heap ?h1 ! 0 = Some top_node"
      using True top by simp
    have inv2: "heap_inv ?h2"
      using inv1 True by (auto simp: heap_inv_def nth_list_update)
    let ?h0 = "?h1\<lparr>heap := (heap ?h1)[0 := None]\<rparr>"
    have "add_mset top_node (slots ?h0) = slots ?h1"
      using len by (intro slots_update_Some_to_None [OF _ c0]) auto
    moreover have "slots ?h2 = add_mset last (slots ?h0)"
      using len by (intro slots_update_None_to_Some [where i = 0]) auto
    ultimately have sl2: "add_mset top_node (slots ?h2) = slots h"
      using sl1 by (simp add: add_mset_commute)
    have "\<exists>h'. sift_down pool ?h2 0 = Some h' \<and> heap_equiv ?h2 h'"
      using len True by (intro sift_down_equiv) auto
    then obtain h' where h': "sift_down pool ?h2 0 = Some h'" "heap_equiv ?h2 h'"
      by blast
    have "pop pool h = Some (h', Some top_node)"
      using True top last h'(1) by (simp add: pop_def Let_def)
    then show ?thesis
      using heap_equiv_inv [OF h'(2) inv2] heap_equiv_slots [OF h'(2)] sl2 h'(2)
      by (simp add: heap_equiv_def)
  qed
qed

section \<open>The key index between calls\<close>

lemma hash_lt_BUCKETS: "hash s key < BUCKETS"
  by (simp add: hash_def BUCKETS_def unat_mod)

definition entries :: "LockFreeHashTable \<Rightarrow> (string \<times> nat) set" where
  "entries t = (\<Union>shard \<in> set (buckets t). set shard)"

definition table_inv :: "LockFreeHashTable \<Rightarrow> bool" where
  "table_inv t \<longleftrightarrow>
     length (buckets t) = BUCKETS \<and>
     (\<forall>(k, a) \<in> entries t. a < length (midpoint_store t)) \<and>
     (\<forall>k k' a. (k, a) \<in> entries t \<and> (k', a) \<in> entries t \<longrightarrow> k = k')"

lemma traverse_Some_mem: "traverse shard key = Some v \<Longrightarrow> (key, v) \<in> set shard"
  by (induction shard key rule: traverse.induct) (auto split: if_splits)

lemma table_inv_new: "table_inv (LockFreeHashTable_new cap)"
  by (simp add: table_inv_def LockFreeHashTable_new_def entries_def)

lemma get_entry:
  assumes "table_inv t" "get t key = Some m"
  shows "(key, m) \<in> entries t" "m < length (midpoint_store t)"
proof -
  have "hash char_is_signed key < length (buckets t)"
    using assms(1) hash_lt_BUCKETS by (simp add: table_inv_def)
  then have "buckets t ! hash char_is_signed key \<in> set (buckets t)"
    by simp
  then show "(key, m) \<in> entries t"
    using traverse_Some_mem assms(2) unfolding get_def entries_def by blast
  then show "m < length (midpoint_store t)"
    using assms(1) by (auto simp: table_inv_def)
qed

lemma entries_update:
  "i < length (buckets t) \<Longrightarrow>
   entries (t\<lparr>buckets := (buckets t)[i := e # buckets t ! i], midpoint_store := st\<rparr>)
     = insert e (entries t)"
proof -
  assume i: "i < length (buckets t)"
  have "(\<Union>shard \<in> set ((buckets t)[i := e # buckets t ! i]). set shard)
        = insert e (\<Union>shard \<in> set (buckets t). set shard)" (is "?L = ?R")
  proof
    show "?L \<subseteq> ?R"
    proof
      fix x assume "x \<in> ?L"
      then obtain sh where sh: "sh \<in> set ((buckets t)[i := e # buckets t ! i])" "x \<in> set sh"
        by blast
      then have "sh = e # buckets t ! i \<or> sh \<in> set (buckets t)"
        using set_update_subset_insert by fastforce
      then show "x \<in> ?R"
        using sh(2) i nth_mem by fastforce
    qed
  next
    show "?R \<subseteq> ?L"
    proof
      fix x assume x: "x \<in> ?R"
      have new: "e # buckets t ! i \<in> set ((buckets t)[i := e # buckets t ! i])"
        using i by (simp add: set_update_memI)
      show "x \<in> ?L"
      proof (cases "x = e")
        case True
        then show ?thesis using new by fastforce
      next
        case False
        then obtain sh where sh: "sh \<in> set (buckets t)" "x \<in> set sh"
          using x by blast
        then obtain j where j: "j < length (buckets t)" "sh = buckets t ! j"
          by (metis in_set_conv_nth)
        show ?thesis
        proof (cases "j = i")
          case True
          then show ?thesis using new sh(2) j by fastforce
        next
          case False
          then have "sh \<in> set ((buckets t)[i := e # buckets t ! i])"
            using j by (metis length_list_update nth_list_update_neq nth_mem)
          then show ?thesis using sh(2) by blast
        qed
      qed
    qed
  qed
  then show ?thesis by (simp add: entries_def)
qed

lemma get_or_create_spec:
  assumes "table_inv t" "get_or_create t key cap = (t', m)"
  shows "table_inv t'"
    and "(key, m) \<in> entries t'"
    and "m < length (midpoint_store t')"
    and "(key, m) \<in> entries t \<and> t' = t
         \<or> m = length (midpoint_store t) \<and> entries t' = insert (key, m) (entries t)
           \<and> midpoint_store t' = midpoint_store t @ [MidpointNode_new cap]"
proof -
  let ?i = "hash char_is_signed key"
  have i: "?i < length (buckets t)"
    using assms(1) hash_lt_BUCKETS by (simp add: table_inv_def)
  show 4: "(key, m) \<in> entries t \<and> t' = t
         \<or> m = length (midpoint_store t) \<and> entries t' = insert (key, m) (entries t)
           \<and> midpoint_store t' = midpoint_store t @ [MidpointNode_new cap]"
  proof (cases "traverse (buckets t ! ?i) key")
    case (Some v)
    then have "t' = t" "m = v"
      using assms(2) by (simp_all add: get_or_create_def)
    moreover have "(key, v) \<in> entries t"
      using Some get_entry(1) [OF assms(1)] by (simp add: get_def)
    ultimately show ?thesis by simp
  next
    case None
    then have t': "t' = t\<lparr>buckets := (buckets t)[?i := (key, length (midpoint_store t)) # buckets t ! ?i],
                         midpoint_store := midpoint_store t @ [MidpointNode_new cap]\<rparr>"
      and m: "m = length (midpoint_store t)"
      using assms(2) by (auto simp: get_or_create_def Let_def)
    show ?thesis
      using entries_update [OF i] t' m by simp
  qed
  then show "(key, m) \<in> entries t'" by auto
  from 4 show "table_inv t'"
  proof
    assume "(key, m) \<in> entries t \<and> t' = t"
    then show ?thesis using assms(1) by simp
  next
    assume new: "m = length (midpoint_store t) \<and> entries t' = insert (key, m) (entries t)
           \<and> midpoint_store t' = midpoint_store t @ [MidpointNode_new cap]"
    have len: "length (buckets t') = BUCKETS"
      using assms by (auto simp: get_or_create_def Let_def table_inv_def split: option.splits)
    have old: "\<forall>(k, a) \<in> entries t. a < m"
      using assms(1) new by (simp add: table_inv_def)
    show ?thesis
      unfolding table_inv_def
    proof (intro conjI allI impI)
      show "length (buckets t') = BUCKETS" by (rule len)
      show "\<forall>(k, a) \<in> entries t'. a < length (midpoint_store t')"
        using old new by auto
      fix k k' a assume "(k, a) \<in> entries t' \<and> (k', a) \<in> entries t'"
      then show "k = k'"
        using old new assms(1) unfolding table_inv_def by (auto; blast)
    qed
  qed
  then show "m < length (midpoint_store t')"
    using \<open>(key, m) \<in> entries t'\<close> by (auto simp: table_inv_def)
qed

section \<open>Caches with fewer than ten nodes\<close>

text \<open>
  A cache with \<open>max_nodes < 10\<close>: every bucket is the empty heap of capacity
  \<open>max_nodes / 10 = 0\<close>, and stays so.
\<close>

definition small_inv :: "RadialCircularList \<Rightarrow> bool" where
  "small_inv c \<longleftrightarrow>
     max_nodes c < 10 \<and> table_inv (midpoints c) \<and>
     (\<forall>m \<in> set (midpoint_store (midpoints c)). m = MidpointNode_new 0)"

lemma small_capacity: "(max_n :: u64) < 10 \<Longrightarrow> unat (max_n div 10) = 0"
  by (simp add: unat_div word_less_nat_alt)

lemma add_node_capacity_0:
  "add_node pool (MidpointNode_new 0) node = (MidpointNode_new 0, False)"
  by (simp add: add_node_def push_def MidpointNode_new_def LockFreeHeap_new_def)

lemma small_inv_new: "max_n < 10 \<Longrightarrow> small_inv (RadialCircularList_new clock max_n)"
  by (simp add: small_inv_def RadialCircularList_new_def table_inv_new)
    (simp add: LockFreeHashTable_new_def)

lemma write_and_push_small:
  assumes "small_inv c"
  shows "\<exists>c'. write_and_push c now_ns node val key prio expiry_time = (c', False) \<and> small_inv c'
           \<and> pool_index c' = pool_index c \<and> total_nodes c' = total_nodes c
           \<and> max_nodes c' = max_nodes c \<and> freed c' = freed c"
proof -
  let ?c1 = "c\<lparr>node_pool := (node_pool c)[node :=
                   \<lparr>node_value = val, priority = prio, timestamp_ns = now_ns,
                    expiry_time_ns = expiry_to_ns expiry_time\<rparr>]\<rparr>"
  have cap: "unat (max_nodes ?c1 div 10) = 0"
    using assms by (simp add: small_inv_def small_capacity)
  obtain t m where tm: "get_or_create (midpoints ?c1) key 0 = (t, m)"
    by (cases "get_or_create (midpoints ?c1) key 0")
  have tinv: "table_inv (midpoints ?c1)"
    using assms by (simp add: small_inv_def)
  note spec = get_or_create_spec [OF tinv tm]
  have store: "\<forall>x \<in> set (midpoint_store t). x = MidpointNode_new 0"
    using spec(4) assms by (auto simp: small_inv_def)
  then have cell: "midpoint_store t ! m = MidpointNode_new 0"
    using spec(3) by simp
  then have same: "(midpoint_store t)[m := MidpointNode_new 0] = midpoint_store t"
    by (metis list_update_id)
  have "write_and_push c now_ns node val key prio expiry_time = (?c1\<lparr>midpoints := t\<rparr>, False)"
    unfolding write_and_push_def Let_def cap tm
    by (simp add: cell add_node_capacity_0 same)
  moreover have "small_inv (?c1\<lparr>midpoints := t\<rparr>)"
    using assms spec(1) store by (simp add: small_inv_def)
  ultimately show ?thesis by simp
qed

lemma insert_cache_small:
  assumes "small_inv c"
  shows "\<exists>c'. insert_cache c now_ns val key prio expiry_time = (c', False) \<and> small_inv c'
           \<and> total_nodes c' = total_nodes c \<and> max_nodes c' = max_nodes c
           \<and> pool_index c' = (if total_nodes c < max_nodes c then pool_index c + 1 else pool_index c)"
proof (cases "total_nodes c \<ge> max_nodes c")
  case True
  then show ?thesis using assms by (simp add: insert_cache_def)
next
  case False
  let ?c1 = "c\<lparr>pool_index := pool_index c + 1\<rparr>"
  have s1: "small_inv ?c1" using assms by (simp add: small_inv_def)
  show ?thesis
  proof (cases "pool_index c \<ge> max_nodes c")
    case True
    then show ?thesis using False s1 by (simp add: insert_cache_def Let_def)
  next
    case nofull: False
    from write_and_push_small [OF s1, of now_ns "unat (pool_index c)" val key prio expiry_time]
    obtain c' where c': "write_and_push ?c1 now_ns (unat (pool_index c)) val key prio expiry_time
        = (c', False)" "small_inv c'" "pool_index c' = pool_index ?c1"
        "total_nodes c' = total_nodes ?c1" "max_nodes c' = max_nodes ?c1"
      by blast
    then show ?thesis
      using False nofull by (simp add: insert_cache_def Let_def)
  qed
qed

lemma insert_batch_loop_small:
  "small_inv c \<Longrightarrow>
     small_inv (insert_batch_loop c clock start_index i batch)
     \<and> total_nodes (insert_batch_loop c clock start_index i batch) = total_nodes c
     \<and> max_nodes (insert_batch_loop c clock start_index i batch) = max_nodes c"
proof (induction batch arbitrary: c i)
  case Nil
  then show ?case by simp
next
  case (Cons item batch)
  obtain val key prio expiry_time where item: "item = (val, key, prio, expiry_time)"
    by (cases item)
  from write_and_push_small [OF Cons.prems, of "clock i" "unat (start_index + word_of_nat i)"
      val key prio expiry_time]
  obtain c' where c': "write_and_push c (clock i) (unat (start_index + word_of_nat i))
        val key prio expiry_time = (c', False)" "small_inv c'"
        "total_nodes c' = total_nodes c" "max_nodes c' = max_nodes c"
    by blast
  show ?case
    using Cons.IH [OF c'(2), of "Suc i"] c' by (simp add: item)
qed

lemma insert_batch_small:
  "small_inv c \<Longrightarrow> small_inv (fst (insert_batch c clock batch))
     \<and> max_nodes (fst (insert_batch c clock batch)) = max_nodes c"
proof -
  assume inv: "small_inv c"
  let ?c1 = "c\<lparr>pool_index := pool_index c + word_of_nat (length batch)\<rparr>"
  have s1: "small_inv ?c1" using inv by (simp add: small_inv_def)
  have "small_inv ((insert_batch_loop ?c1 clock (pool_index c) 0 batch)
          \<lparr>total_nodes := x\<rparr>)" for x
    using insert_batch_loop_small [OF s1, of clock "pool_index c" 0 batch]
    by (auto simp: small_inv_def)
  moreover have "max_nodes (insert_batch_loop ?c1 clock (pool_index c) 0 batch) = max_nodes c"
    using insert_batch_loop_small [OF s1, of clock "pool_index c" 0 batch] by simp
  ultimately show ?thesis
    using inv s1 by (simp add: insert_batch_def Let_def)
qed

lemma get_highest_priority_small:
  assumes "small_inv c"
  shows "get_highest_priority c clock key = Some (c, None)"
proof (cases "get (midpoints c) key")
  case None
  then show ?thesis by (simp add: get_highest_priority_def)
next
  case (Some m)
  have tinv: "table_inv (midpoints c)" using assms by (simp add: small_inv_def)
  have m: "m < length (midpoint_store (midpoints c))"
    using get_entry(2) [OF tinv Some] .
  then have cell: "midpoint_store (midpoints c) ! m = MidpointNode_new 0"
    using assms by (simp add: small_inv_def)
  have "get_highest_priority_node (node_pool c) clock 0 (freed c) (MidpointNode_new 0)
          = Some (MidpointNode_new 0, freed c, None)"
    by (subst get_highest_priority_node.simps)
      (simp add: MidpointNode_new_def LockFreeHeap_new_def)
  moreover have "(midpoint_store (midpoints c))[m := MidpointNode_new 0]
                   = midpoint_store (midpoints c)"
    using cell by (metis list_update_id)
  ultimately show ?thesis
    using Some cell by (simp add: get_highest_priority_def)
qed

lemma get_highest_priority_batch_loop_small:
  "small_inv c \<Longrightarrow>
     get_highest_priority_batch_loop c clocks i keys = Some (c, replicate (length keys) None)"
  by (induction keys arbitrary: i) (simp_all add: get_highest_priority_small)

lemma step_small:
  assumes "small_inv c"
  shows "\<exists>c' r. step c x = Some (c', r) \<and> small_inv c' \<and> max_nodes c' = max_nodes c
           \<and> (is_Insert x \<longrightarrow> r = Flag False)
           \<and> (\<not> is_InsertBatch x \<longrightarrow> total_nodes c' = total_nodes c)
           \<and> (\<not> is_InsertBatch x \<longrightarrow> reply_nodes r = [])"
proof (cases x)
  case (Insert now_ns val key prio expiry_time)
  from insert_cache_small [OF assms, of now_ns val key prio expiry_time]
  show ?thesis using Insert by auto
next
  case (InsertBatch clock batch)
  then show ?thesis
    using insert_batch_small [OF assms, of clock batch]
    by (cases "insert_batch c clock batch") simp
next
  case (GetHighestPriority clock key)
  then show ?thesis
    using assms by (simp add: get_highest_priority_small)
next
  case (GetHighestPriorityBatch clocks keys)
  then show ?thesis
    using assms
    by (simp add: get_highest_priority_batch_def get_highest_priority_batch_loop_small)
qed

lemma run_small:
  "small_inv c \<Longrightarrow>
     \<exists>c' rs. run c xs = Some (c', rs) \<and> small_inv c' \<and> length rs = length xs
       \<and> max_nodes c' = max_nodes c
       \<and> (\<forall>i < length xs. is_Insert (xs ! i) \<longrightarrow> rs ! i = Flag False)
       \<and> ((\<forall>x \<in> set xs. \<not> is_InsertBatch x) \<longrightarrow> total_nodes c' = total_nodes c \<and> returned rs = [])"
proof (induction xs arbitrary: c)
  case Nil
  then show ?case by (simp add: returned_def)
next
  case (Cons x xs)
  from step_small [OF Cons.prems, of x]
  obtain c1 r where 1: "step c x = Some (c1, r)" "small_inv c1" "max_nodes c1 = max_nodes c"
      "is_Insert x \<longrightarrow> r = Flag False"
      "\<not> is_InsertBatch x \<longrightarrow> total_nodes c1 = total_nodes c"
      "\<not> is_InsertBatch x \<longrightarrow> reply_nodes r = []"
    by blast
  from Cons.IH [OF 1(2)]
  obtain c2 rs where 2: "run c1 xs = Some (c2, rs)" "small_inv c2" "length rs = length xs"
      "max_nodes c2 = max_nodes c1"
      "\<forall>i < length xs. is_Insert (xs ! i) \<longrightarrow> rs ! i = Flag False"
      "(\<forall>x \<in> set xs. \<not> is_InsertBatch x) \<longrightarrow> total_nodes c2 = total_nodes c1 \<and> returned rs = []"
    by blast
  have "\<forall>i < length (x # xs). is_Insert ((x # xs) ! i) \<longrightarrow> (r # rs) ! i = Flag False"
    using 1(4) 2(5) by (auto simp: nth_Cons split: nat.splits)
  then show ?case
    using 1 2 by (auto simp: returned_def)
qed

section \<open>Fields that the write path leaves alone\<close>

lemma write_and_push_fields:
  "write_and_push c now_ns node val key prio expiry_time = (c', ok) \<Longrightarrow>
     total_nodes c' = total_nodes c \<and> max_nodes c' = max_nodes c \<and> pool_index c' = pool_index c
     \<and> freed c' = freed c \<and> length (node_pool c') = length (node_pool c)"
  by (auto simp: write_and_push_def Let_def split: prod.splits)

lemma insert_batch_loop_fields:
  "total_nodes (insert_batch_loop c clock start_index i batch) = total_nodes c
   \<and> max_nodes (insert_batch_loop c clock start_index i batch) = max_nodes c
   \<and> pool_index (insert_batch_loop c clock start_index i batch) = pool_index c
   \<and> freed (insert_batch_loop c clock start_index i batch) = freed c
   \<and> length (node_pool (insert_batch_loop c clock start_index i batch)) = length (node_pool c)"
proof (induction batch arbitrary: c i)
  case Nil
  then show ?case by simp
next
  case (Cons item batch)
  obtain val key prio expiry_time where item: "item = (val, key, prio, expiry_time)"
    by (cases item)
  obtain c' ok where w: "write_and_push c (clock i) (unat (start_index + word_of_nat i))
        val key prio expiry_time = (c', ok)"
    by (cases "write_and_push c (clock i) (unat (start_index + word_of_nat i))
        val key prio expiry_time")
  show ?case
    using Cons.IH [of c' "Suc i"] write_and_push_fields [OF w] by (simp add: item w)
qed

lemma unat_add_of_nat:
  "unat (x :: u64) + n \<le> unat (y :: u64) \<Longrightarrow> unat (x + word_of_nat n) = unat x + n"
proof -
  assume le: "unat x + n \<le> unat y"
  have "unat y < 2 ^ 64" using unsigned_less [of y] by simp
  then have "unat x + n < 2 ^ 64" using le by simp
  then show ?thesis
    by (simp add: unat_word_ariths unat_of_nat)
qed

lemma RadialCircularList_new_fields:
  "total_nodes (RadialCircularList_new clock max_n) = 0"
  "pool_index (RadialCircularList_new clock max_n) = 0"
  "max_nodes (RadialCircularList_new clock max_n) = max_n"
  "freed (RadialCircularList_new clock max_n) = []"
  "length (node_pool (RadialCircularList_new clock max_n)) = unat max_n"
  "midpoint_store (midpoints (RadialCircularList_new clock max_n)) = []"
  by (simp_all add: RadialCircularList_new_def LockFreeHashTable_new_def)

section \<open>Running the model on concrete calls\<close>

lemma hash_AAPL: "hash char_is_signed ''AAPL'' = 11"
  by (simp add: hash_def char_is_signed_def char_to_u64_def FNV_PRIME_def FNV_OFFSET_def
      BUCKETS_def)

text \<open>The equations that evaluate a call on a concrete cache.\<close>

lemmas exec_defs = insert_cache_def write_and_push_def get_or_create_def get_def
  get_highest_priority_def add_node_def push_def pop_def Let_def
  RadialCircularList_new_def LockFreeHashTable_new_def MidpointNode_new_def
  LockFreeHeap_new_def BUCKETS_def hash_AAPL compare_exchange_def
  sift_up_unfold sift_up_swaps_def sift_down_unfold max_child_def
  get_highest_priority_node.simps is_expired_def expiry_to_ns_def trunc_def
  word_sle_eq word_sless_alt unat_div

section \<open>The cache between calls\<close>

text \<open>
  The cache between calls.  \<open>occ c i\<close> counts the cells, over all heaps, that hold pool
  node \<open>i\<close>.  In \<open>core_inv R out n c\<close>, \<open>R key\<close> is a set of records that may sit under
  \<open>key\<close>, \<open>out\<close> a set of pool nodes that have left the heaps, and \<open>n\<close> a bound on the pool
  nodes in use.
\<close>

definition occ :: "RadialCircularList \<Rightarrow> nat \<Rightarrow> nat" where
  "occ c i = (\<Sum>m\<leftarrow>midpoint_store (midpoints c). count (slots (nodes m)) i)"

definition core_inv ::
  "(string \<Rightarrow> Node set) \<Rightarrow> nat set \<Rightarrow> nat \<Rightarrow> RadialCircularList \<Rightarrow> bool" where
  "core_inv R out n c \<longleftrightarrow>
     table_inv (midpoints c) \<and>
     length (node_pool c) = unat (max_nodes c) \<and>
     n \<le> unat (max_nodes c) \<and>
     (\<forall>m \<in> set (midpoint_store (midpoints c)).
        heap_inv (nodes m) \<and> capacity (nodes m) = unat (max_nodes c div 10) \<and>
        (\<forall>i \<in># slots (nodes m). i < n)) \<and>
     (\<forall>(k, a) \<in> entries (midpoints c).
        \<forall>i \<in># slots (nodes (midpoint_store (midpoints c) ! a)). node_pool c ! i \<in> R k) \<and>
     (\<forall>i. occ c i \<le> 1) \<and>
     (\<forall>i \<in> out. occ c i = 0 \<and> i < n)"

lemma occ_fields [simp]:
  "occ (c\<lparr>pool_index := p\<rparr>) i = occ c i"
  "occ (c\<lparr>total_nodes := tn\<rparr>) i = occ c i"
  "occ (c\<lparr>freed := fr\<rparr>) i = occ c i"
  "occ (c\<lparr>node_pool := np\<rparr>) i = occ c i"
  by (simp_all add: occ_def)

lemma core_inv_fields [simp]:
  "core_inv R out n (c\<lparr>pool_index := p\<rparr>) = core_inv R out n c"
  "core_inv R out n (c\<lparr>total_nodes := tn\<rparr>) = core_inv R out n c"
  "core_inv R out n (c\<lparr>freed := fr\<rparr>) = core_inv R out n c"
  by (simp_all add: core_inv_def)

lemma slots_new: "slots (LockFreeHeap_new cap) = {#}"
  by (simp add: slots_def LockFreeHeap_new_def)

lemma heap_inv_new: "heap_inv (LockFreeHeap_new cap)"
  by (simp add: heap_inv_def LockFreeHeap_new_def)

lemma occ_zero:
  assumes "\<forall>m \<in> set (midpoint_store (midpoints c)). \<forall>j \<in># slots (nodes m). j < n" "n \<le> i"
  shows "occ c i = 0"
proof -
  have "count (slots (nodes m)) i = 0" if "m \<in> set (midpoint_store (midpoints c))" for m
    using assms that by (metis count_eq_zero_iff not_le)
  then show ?thesis
    by (simp add: occ_def)
qed

lemma core_inv_new:
  "core_inv R {} 0 (RadialCircularList_new clock max_n)"
  by (simp add: core_inv_def RadialCircularList_new_def table_inv_new occ_def)
    (simp add: LockFreeHashTable_new_def entries_def)

lemma core_inv_mono:
  assumes "core_inv R out n c" "\<And>k. R k \<subseteq> R' k" "n \<le> n'" "n' \<le> unat (max_nodes c)"
    "out' \<subseteq> out"
  shows "core_inv R' out' n' c"
  using assms unfolding core_inv_def
  by (auto simp: subset_iff) (meson less_le_trans)+

lemma core_inv_write_pool:
  assumes "core_inv R out n c" "n \<le> node"
  shows "core_inv R out n (c\<lparr>node_pool := (node_pool c)[node := N]\<rparr>)"
proof -
  have "(node_pool c)[node := N] ! i = node_pool c ! i"
    if "(k, a) \<in> entries (midpoints c)"
       "i \<in># slots (nodes (midpoint_store (midpoints c) ! a))" for k a i
  proof -
    have "a < length (midpoint_store (midpoints c))"
      using assms(1) that(1) by (auto simp: core_inv_def table_inv_def)
    then have "i < n"
      using assms(1) that(2) by (auto simp: core_inv_def)
    then show ?thesis using assms(2) by simp
  qed
  then show ?thesis
    using assms(1) unfolding core_inv_def by (auto simp: occ_def)
qed

lemma sum_list_map_update:
  "a < length xs \<Longrightarrow> (\<Sum>x\<leftarrow>xs[a := y]. f x) + f (xs ! a) = (\<Sum>x\<leftarrow>xs. f x) + (f y :: nat)"
proof (induction xs arbitrary: a)
  case Nil
  then show ?case by simp
next
  case (Cons x xs)
  show ?case
  proof (cases a)
    case 0
    then show ?thesis by simp
  next
    case (Suc b)
    then have "b < length xs" using Cons.prems by simp
    from Cons.IH [OF this] show ?thesis using Suc by simp
  qed
qed

lemma occ_update:
  assumes "a < length (midpoint_store (midpoints c))"
  shows "occ (c\<lparr>midpoints := (midpoints c)\<lparr>midpoint_store :=
                  (midpoint_store (midpoints c))[a := mid]\<rparr>\<rparr>) i
           + count (slots (nodes (midpoint_store (midpoints c) ! a))) i
         = occ c i + count (slots (nodes mid)) i"
  using sum_list_map_update [OF assms, of "\<lambda>m. count (slots (nodes m)) i" mid]
  by (simp add: occ_def)

lemma core_inv_get_or_create:
  assumes "core_inv R out n c"
      and "get_or_create (midpoints c) key (unat (max_nodes c div 10)) = (t, a)"
  shows "core_inv R out n (c\<lparr>midpoints := t\<rparr>)"
    and "(key, a) \<in> entries t"
    and "a < length (midpoint_store t)"
proof -
  have tinv: "table_inv (midpoints c)"
    using assms(1) by (simp add: core_inv_def)
  note spec = get_or_create_spec [OF tinv assms(2)]
  show "(key, a) \<in> entries t" by (rule spec(2))
  show "a < length (midpoint_store t)" by (rule spec(3))
  from spec(4) show "core_inv R out n (c\<lparr>midpoints := t\<rparr>)"
  proof
    assume "(key, a) \<in> entries (midpoints c) \<and> t = midpoints c"
    then show ?thesis using assms(1) by simp
  next
    let ?new = "MidpointNode_new (unat (max_nodes c div 10))"
    assume new: "a = length (midpoint_store (midpoints c))
        \<and> entries t = insert (key, a) (entries (midpoints c))
        \<and> midpoint_store t = midpoint_store (midpoints c) @ [?new]"
    have old_lt: "a' < length (midpoint_store (midpoints c))"
      if "(k', a') \<in> entries (midpoints c)" for k' a'
      using tinv that by (auto simp: table_inv_def)
    have cell: "midpoint_store t ! a' = midpoint_store (midpoints c) ! a'"
      if "(k', a') \<in> entries (midpoints c)" for k' a'
      using old_lt [OF that] new by (simp add: nth_append)
    have newcell: "midpoint_store t ! a = ?new"
      using new by simp
    have sl: "slots (nodes ?new) = {#}"
      by (simp add: MidpointNode_new_def slots_new)
    have newinv: "heap_inv (nodes ?new)" "capacity (nodes ?new) = unat (max_nodes c div 10)"
      by (simp_all add: MidpointNode_new_def heap_inv_new) (simp add: LockFreeHeap_new_def)
    have occ_eq: "occ (c\<lparr>midpoints := t\<rparr>) i = occ c i" for i
      using new sl by (simp add: occ_def)
    show ?thesis
      unfolding core_inv_def
    proof (intro conjI)
      show "table_inv (midpoints (c\<lparr>midpoints := t\<rparr>))"
        using spec(1) by simp
      show "\<forall>m \<in> set (midpoint_store (midpoints (c\<lparr>midpoints := t\<rparr>))).
              heap_inv (nodes m)
              \<and> capacity (nodes m) = unat (max_nodes (c\<lparr>midpoints := t\<rparr>) div 10)
              \<and> (\<forall>i \<in># slots (nodes m). i < n)"
        using assms(1) new sl newinv
        by (auto simp: core_inv_def)
      show "\<forall>(k, a) \<in> entries (midpoints (c\<lparr>midpoints := t\<rparr>)).
              \<forall>i \<in># slots (nodes (midpoint_store (midpoints (c\<lparr>midpoints := t\<rparr>)) ! a)).
                node_pool (c\<lparr>midpoints := t\<rparr>) ! i \<in> R k"
      proof (clarsimp)
        fix k' a' i
        assume e: "(k', a') \<in> entries t" and i: "i \<in># slots (nodes (midpoint_store t ! a'))"
        show "node_pool c ! i \<in> R k'"
        proof (cases "(k', a') \<in> entries (midpoints c)")
          case True
          then show ?thesis
            using assms(1) i cell [OF True] by (auto simp: core_inv_def)
        next
          case False
          then have "a' = a" using e new by auto
          then show ?thesis using i newcell sl by simp
        qed
      qed
    qed (use assms(1) occ_eq in \<open>auto simp: core_inv_def\<close>)
  qed
qed

lemma entries_store [simp]: "entries (t\<lparr>midpoint_store := st\<rparr>) = entries t"
  by (simp add: entries_def)

lemma table_inv_store:
  "length st = length (midpoint_store t) \<Longrightarrow> table_inv (t\<lparr>midpoint_store := st\<rparr>) = table_inv t"
  by (simp add: table_inv_def)

text \<open>Replacing the heap at one address by a heap with one more node.\<close>

lemma core_inv_push:
  assumes inv: "core_inv R out n c"
      and e: "(key, a) \<in> entries (midpoints c)"
      and node: "n \<le> node" "node < unat (max_nodes c)" "ok \<Longrightarrow> node_pool c ! node \<in> R key"
      and add: "add_node (node_pool c) (midpoint_store (midpoints c) ! a) node = (mid, ok)"
  shows "core_inv R out (Suc node)
           (c\<lparr>midpoints := (midpoints c)\<lparr>midpoint_store :=
                 (midpoint_store (midpoints c))[a := mid]\<rparr>\<rparr>)"
proof -
  let ?st = "midpoint_store (midpoints c)"
  let ?old = "?st ! a"
  let ?c' = "c\<lparr>midpoints := (midpoints c)\<lparr>midpoint_store := ?st[a := mid]\<rparr>\<rparr>"
  have tinv: "table_inv (midpoints c)" using inv by (simp add: core_inv_def)
  have a: "a < length ?st" using tinv e by (auto simp: table_inv_def)
  then have oldmem: "?old \<in> set ?st" by simp
  have oldinv: "heap_inv (nodes ?old)" "capacity (nodes ?old) = unat (max_nodes c div 10)"
      "\<forall>i \<in># slots (nodes ?old). i < n"
    using inv oldmem unfolding core_inv_def by blast+
  obtain h where h: "push (node_pool c) (nodes ?old) node = (h, ok)" "mid = ?old\<lparr>nodes := h\<rparr>"
    using add by (auto simp: add_node_def split: prod.splits)
  note ps = push_spec [OF oldinv(1) h(1)]
  have midinv: "heap_inv (nodes mid)" "capacity (nodes mid) = unat (max_nodes c div 10)"
    using ps oldinv(2) h(2) by simp_all
  have midslots: "slots (nodes mid) = (if ok then add_mset node (slots (nodes ?old)) else slots (nodes ?old))"
    using ps h(2) by simp
  have midbound: "\<forall>i \<in># slots (nodes mid). i < Suc node"
    using midslots oldinv(3) node(1) by (auto split: if_splits)
  have setst: "set (?st[a := mid]) \<subseteq> insert mid (set ?st)"
    by (rule set_update_subset_insert)
  have occ0: "occ c node = 0"
    using inv node(1) by (intro occ_zero [where n = n]) (auto simp: core_inv_def)
  have occ_eq: "occ ?c' i = occ c i + (if ok \<and> i = node then 1 else 0)" for i
    using occ_update [OF a, of mid i] midslots by (auto split: if_splits)
  show ?thesis
    unfolding core_inv_def
  proof (intro conjI)
    show "table_inv (midpoints ?c')"
      using tinv by (simp add: table_inv_store)
    show "length (node_pool ?c') = unat (max_nodes ?c')"
      using inv by (simp add: core_inv_def)
    show "Suc node \<le> unat (max_nodes ?c')"
      using node(2) by simp
    show "\<forall>m \<in> set (midpoint_store (midpoints ?c')).
            heap_inv (nodes m) \<and> capacity (nodes m) = unat (max_nodes ?c' div 10)
            \<and> (\<forall>i \<in># slots (nodes m). i < Suc node)"
    proof
      fix m assume "m \<in> set (midpoint_store (midpoints ?c'))"
      then have "m = mid \<or> m \<in> set ?st" using setst by auto
      then show "heap_inv (nodes m) \<and> capacity (nodes m) = unat (max_nodes ?c' div 10)
            \<and> (\<forall>i \<in># slots (nodes m). i < Suc node)"
      proof
        assume "m = mid"
        then show ?thesis using midinv midbound by simp
      next
        assume m: "m \<in> set ?st"
        then have "heap_inv (nodes m)" "capacity (nodes m) = unat (max_nodes c div 10)"
            "\<forall>i \<in># slots (nodes m). i < n"
          using inv unfolding core_inv_def by blast+
        then show ?thesis using node(1) by auto
      qed
    qed
    show "\<forall>(k, a') \<in> entries (midpoints ?c').
            \<forall>i \<in># slots (nodes (midpoint_store (midpoints ?c') ! a')). node_pool ?c' ! i \<in> R k"
    proof (clarsimp)
      fix k' a' i
      assume e': "(k', a') \<in> entries (midpoints c)"
        and i: "i \<in># slots (nodes (?st[a := mid] ! a'))"
      have old: "\<forall>i \<in># slots (nodes (?st ! a')). node_pool c ! i \<in> R k'"
        using inv e' unfolding core_inv_def by blast
      show "node_pool c ! i \<in> R k'"
      proof (cases "a' = a")
        case False
        then show ?thesis using old i by simp
      next
        case True
        then have "k' = key"
          using tinv e e' unfolding table_inv_def by blast
        moreover have "ok \<and> i = node \<or> i \<in># slots (nodes ?old)"
          using i True a midslots by (auto split: if_splits)
        ultimately show ?thesis
          using node(3) old True by auto
      qed
    qed
    show "\<forall>i. occ ?c' i \<le> 1"
      using occ_eq occ0 inv by (auto simp: core_inv_def)
    show "\<forall>i \<in> out. occ ?c' i = 0 \<and> i < Suc node"
    proof
      fix i assume "i \<in> out"
      then have "occ c i = 0" "i < n" using inv by (auto simp: core_inv_def)
      then show "occ ?c' i = 0 \<and> i < Suc node"
        using occ_eq [of i] node(1) by auto
    qed
  qed
qed

text \<open>Replacing the heap at one address by a heap that has lost the nodes \<open>D\<close>.\<close>

lemma core_inv_shrink:
  assumes inv: "core_inv R out n c"
      and a: "a < length (midpoint_store (midpoints c))"
      and mid: "heap_inv (nodes mid)"
               "capacity (nodes mid) = capacity (nodes (midpoint_store (midpoints c) ! a))"
               "slots (nodes (midpoint_store (midpoints c) ! a)) = slots (nodes mid) + D"
  shows "core_inv R (out \<union> set_mset D) n
           (c\<lparr>midpoints := (midpoints c)\<lparr>midpoint_store :=
                 (midpoint_store (midpoints c))[a := mid]\<rparr>\<rparr>)"
    and "\<forall>i \<in># D. i \<notin> out \<and> count D i = 1 \<and> i < n"
proof -
  let ?st = "midpoint_store (midpoints c)"
  let ?old = "?st ! a"
  let ?c' = "c\<lparr>midpoints := (midpoints c)\<lparr>midpoint_store := ?st[a := mid]\<rparr>\<rparr>"
  have tinv: "table_inv (midpoints c)" using inv by (simp add: core_inv_def)
  have oldmem: "?old \<in> set ?st" using a by simp
  have oldinv: "capacity (nodes ?old) = unat (max_nodes c div 10)"
      "\<forall>i \<in># slots (nodes ?old). i < n"
    using inv oldmem unfolding core_inv_def by blast+
  have occ1: "occ c i \<le> 1" for i using inv by (simp add: core_inv_def)
  have sub: "i \<in># slots (nodes mid) \<Longrightarrow> i \<in># slots (nodes ?old)" for i
    using mid(3) by simp
  have setst: "set (?st[a := mid]) \<subseteq> insert mid (set ?st)"
    by (rule set_update_subset_insert)
  have occ_eq: "occ ?c' i + count D i = occ c i" for i
    using occ_update [OF a, of mid i] mid(3) by simp
  have D: "occ c i = 1 \<and> count D i = 1 \<and> occ ?c' i = 0 \<and> i < n" if "i \<in># D" for i
  proof -
    have "0 < count D i" using that by (simp only: count_greater_zero_iff)
    moreover have "count D i \<le> occ c i" using occ_eq [of i] by arith
    ultimately have "occ c i = 1" "count D i = 1" using occ1 [of i] by arith+
    moreover have "i \<in># slots (nodes ?old)" using that mid(3) by simp
    ultimately show ?thesis using occ_eq [of i] oldinv(2) by simp
  qed
  show "\<forall>i \<in># D. i \<notin> out \<and> count D i = 1 \<and> i < n"
    using D inv unfolding core_inv_def by fastforce
  show "core_inv R (out \<union> set_mset D) n ?c'"
    unfolding core_inv_def
  proof (intro conjI)
    show "table_inv (midpoints ?c')"
      using tinv by (simp add: table_inv_store)
    show "length (node_pool ?c') = unat (max_nodes ?c')"
      using inv by (simp add: core_inv_def)
    show "n \<le> unat (max_nodes ?c')"
      using inv by (simp add: core_inv_def)
    show "\<forall>m \<in> set (midpoint_store (midpoints ?c')).
            heap_inv (nodes m) \<and> capacity (nodes m) = unat (max_nodes ?c' div 10)
            \<and> (\<forall>i \<in># slots (nodes m). i < n)"
    proof
      fix m assume "m \<in> set (midpoint_store (midpoints ?c'))"
      then have "m = mid \<or> m \<in> set ?st" using setst by auto
      then show "heap_inv (nodes m) \<and> capacity (nodes m) = unat (max_nodes ?c' div 10)
            \<and> (\<forall>i \<in># slots (nodes m). i < n)"
      proof
        assume "m = mid"
        then show ?thesis using mid oldinv sub by auto
      next
        assume m: "m \<in> set ?st"
        then show ?thesis using inv unfolding core_inv_def by auto
      qed
    qed
    show "\<forall>(k, a') \<in> entries (midpoints ?c').
            \<forall>i \<in># slots (nodes (midpoint_store (midpoints ?c') ! a')). node_pool ?c' ! i \<in> R k"
    proof (clarsimp)
      fix k' a' i
      assume e': "(k', a') \<in> entries (midpoints c)"
        and i: "i \<in># slots (nodes (?st[a := mid] ! a'))"
      have old: "\<forall>i \<in># slots (nodes (?st ! a')). node_pool c ! i \<in> R k'"
        using inv e' unfolding core_inv_def by blast
      show "node_pool c ! i \<in> R k'"
      proof (cases "a' = a")
        case False
        then show ?thesis using old i by simp
      next
        case True
        then have "i \<in># slots (nodes ?old)" using i a sub by simp
        then show ?thesis using old True by simp
      qed
    qed
    show "\<forall>i. occ ?c' i \<le> 1"
    proof
      fix i show "occ ?c' i \<le> 1" using occ_eq [of i] occ1 [of i] by simp
    qed
    show "\<forall>i \<in> out \<union> set_mset D. occ ?c' i = 0 \<and> i < n"
    proof
      fix i assume "i \<in> out \<union> set_mset D"
      then show "occ ?c' i = 0 \<and> i < n"
      proof
        assume "i \<in> out"
        then have "occ c i = 0" "i < n" using inv by (auto simp: core_inv_def)
        then show ?thesis using occ_eq [of i] by simp
      next
        assume "i \<in> set_mset D"
        then show ?thesis using D by simp
      qed
    qed
  qed
qed

lemma write_and_push_inv:
  assumes inv: "core_inv R out n c"
      and node: "n \<le> node" "node < unat (max_nodes c)"
      and R': "\<And>k. R k \<subseteq> R' k"
              "ok \<Longrightarrow> \<lparr>node_value = val, priority = prio, timestamp_ns = now_ns,
                expiry_time_ns = expiry_to_ns expiry_time\<rparr> \<in> R' key"
      and w: "write_and_push c now_ns node val key prio expiry_time = (c', ok)"
  shows "core_inv R' out (Suc node) c'"
proof -
  let ?N = "\<lparr>node_value = val, priority = prio, timestamp_ns = now_ns,
             expiry_time_ns = expiry_to_ns expiry_time\<rparr>"
  let ?c1 = "c\<lparr>node_pool := (node_pool c)[node := ?N]\<rparr>"
  have n_le: "n \<le> unat (max_nodes c)" using node by simp
  have "core_inv R' out n c"
    by (rule core_inv_mono [OF inv R'(1) _ n_le]) simp_all
  then have inv1: "core_inv R' out n ?c1"
    using node(1) by (rule core_inv_write_pool)
  obtain t a where ta: "get_or_create (midpoints ?c1) key (unat (max_nodes ?c1 div 10)) = (t, a)"
    by (cases "get_or_create (midpoints ?c1) key (unat (max_nodes ?c1 div 10))")
  note goc = core_inv_get_or_create [OF inv1 ta]
  let ?c2 = "?c1\<lparr>midpoints := t\<rparr>"
  obtain mid ok' where add: "add_node (node_pool ?c1) (midpoint_store t ! a) node = (mid, ok')"
    by (cases "add_node (node_pool ?c1) (midpoint_store t ! a) node")
  have len: "node < length (node_pool c)"
    using inv node(2) by (simp add: core_inv_def)
  have ok: "ok' = ok"
    using w ta add by (simp add: write_and_push_def Let_def)
  have "core_inv R' out (Suc node)
          (?c2\<lparr>midpoints := (midpoints ?c2)\<lparr>midpoint_store :=
                 (midpoint_store (midpoints ?c2))[a := mid]\<rparr>\<rparr>)"
  proof (rule core_inv_push [OF goc(1) _ node(1)])
    show "(key, a) \<in> entries (midpoints ?c2)" using goc(2) by simp
    show "node < unat (max_nodes ?c2)" using node(2) by simp
    show "ok' \<Longrightarrow> node_pool ?c2 ! node \<in> R' key" using len R'(2) ok by simp
    show "add_node (node_pool ?c2) (midpoint_store (midpoints ?c2) ! a) node = (mid, ok')"
      using add by simp
  qed
  moreover have "c' = ?c1\<lparr>midpoints := t\<lparr>midpoint_store := (midpoint_store t)[a := mid]\<rparr>\<rparr>"
    using w ta add by (simp add: write_and_push_def Let_def)
  ultimately show ?thesis by simp
qed

lemma get_highest_priority_node_spec:
  assumes "heap_inv (nodes m)"
  shows "\<exists>m' dels r. get_highest_priority_node pool clock k fr m = Some (m', fr @ dels, r)
           \<and> heap_inv (nodes m') \<and> capacity (nodes m') = capacity (nodes m)
           \<and> slots (nodes m) = slots (nodes m') + (mset dels + mset (ptr_nodes r))
           \<and> (\<forall>i. r = Some i \<longrightarrow> \<not> is_expired (pool ! i) (clock (k + length dels)))
           \<and> (\<forall>j < length dels. is_expired (pool ! (dels ! j)) (clock (k + j)))
           \<and> (r = None \<longrightarrow> heap_size (nodes m') = 0)"
  using assms
proof (induction "heap_size (nodes m)" arbitrary: m k fr rule: less_induct)
  case less
  show ?case
  proof (cases "heap_size (nodes m) = 0")
    case True
    then have "get_highest_priority_node pool clock k fr m = Some (m, fr @ [], None)"
      by (subst get_highest_priority_node.simps) simp
    then show ?thesis
      using less.prems True by (intro exI [of _ m] exI [of _ "[]"] exI [of _ None]) simp
  next
    case False
    then have pos: "0 < heap_size (nodes m)" by simp
    from pop_spec [OF less.prems pos, of pool]
    obtain h top_node where p: "pop pool (nodes m) = Some (h, Some top_node)" "heap_inv h"
        "capacity h = capacity (nodes m)" "heap_size h = heap_size (nodes m) - 1"
        "slots (nodes m) = add_mset top_node (slots h)"
      by blast
    show ?thesis
    proof (cases "is_expired (pool ! top_node) (clock k)")
      case live: False
      have "get_highest_priority_node pool clock k fr m
              = Some (m\<lparr>nodes := h\<rparr>, fr @ [], Some top_node)"
        using False p(1) live by (subst get_highest_priority_node.simps) simp
      then show ?thesis
        using p live
        by (intro exI [of _ "m\<lparr>nodes := h\<rparr>"] exI [of _ "[]"] exI [of _ "Some top_node"]) simp
    next
      case True
      have rec: "get_highest_priority_node pool clock k fr m
              = get_highest_priority_node pool clock (Suc k) (fr @ [top_node]) (m\<lparr>nodes := h\<rparr>)"
        using False p(1) True by (subst get_highest_priority_node.simps) simp
      have "heap_size (nodes (m\<lparr>nodes := h\<rparr>)) < heap_size (nodes m)"
        using p(4) pos by simp
      from less.hyps [OF this, of "Suc k" "fr @ [top_node]"] p(2)
      obtain m' dels r where ih:
          "get_highest_priority_node pool clock (Suc k) (fr @ [top_node]) (m\<lparr>nodes := h\<rparr>)
             = Some (m', (fr @ [top_node]) @ dels, r)"
          "heap_inv (nodes m')" "capacity (nodes m') = capacity h"
          "slots h = slots (nodes m') + (mset dels + mset (ptr_nodes r))"
          "\<forall>i. r = Some i \<longrightarrow> \<not> is_expired (pool ! i) (clock (Suc k + length dels))"
          "\<forall>j < length dels. is_expired (pool ! (dels ! j)) (clock (Suc k + j))"
          "r = None \<longrightarrow> heap_size (nodes m') = 0"
        by auto
      have exp: "\<forall>j < length (top_node # dels).
                   is_expired (pool ! ((top_node # dels) ! j)) (clock (k + j))"
        using True ih(6) by (auto simp: nth_Cons split: nat.splits)
      show ?thesis
        using rec ih(1,2,3,4,5,7) p(3,5) exp
        by (intro exI [of _ m'] exI [of _ "top_node # dels"] exI [of _ r]) simp
    qed
  qed
qed

lemma get_highest_priority_inv:
  assumes inv: "core_inv R out n c"
  shows "\<exists>c' r dels. get_highest_priority c clock key = Some (c', r)
           \<and> freed c' = freed c @ dels
           \<and> core_inv R (out \<union> set dels \<union> set (ptr_nodes r)) n c'
           \<and> distinct (dels @ ptr_nodes r) \<and> set (dels @ ptr_nodes r) \<inter> out = {}
           \<and> (\<forall>i. r = Some i \<longrightarrow> i < n \<and> node_pool c' ! i \<in> R key
                  \<and> \<not> is_expired (node_pool c' ! i) (clock (length dels)))
           \<and> (\<forall>j < length dels. is_expired (node_pool c' ! (dels ! j)) (clock j))
           \<and> node_pool c' = node_pool c \<and> pool_index c' = pool_index c
           \<and> total_nodes c' = total_nodes c \<and> max_nodes c' = max_nodes c"
proof (cases "get (midpoints c) key")
  case None
  then have "get_highest_priority c clock key = Some (c, None)"
    by (simp add: get_highest_priority_def)
  then show ?thesis
    using inv by (intro exI [of _ c] exI [of _ None] exI [of _ "[]"]) simp
next
  case (Some a)
  let ?st = "midpoint_store (midpoints c)"
  have tinv: "table_inv (midpoints c)" using inv by (simp add: core_inv_def)
  note ge = get_entry [OF tinv Some]
  have hinv: "heap_inv (nodes (?st ! a))"
    using inv ge(2) unfolding core_inv_def by (meson nth_mem)
  from get_highest_priority_node_spec [OF hinv, of "node_pool c" clock 0 "freed c"]
  obtain mid dels r where g:
      "get_highest_priority_node (node_pool c) clock 0 (freed c) (?st ! a)
         = Some (mid, freed c @ dels, r)"
      "heap_inv (nodes mid)" "capacity (nodes mid) = capacity (nodes (?st ! a))"
      "slots (nodes (?st ! a)) = slots (nodes mid) + (mset dels + mset (ptr_nodes r))"
      "\<forall>i. r = Some i \<longrightarrow> \<not> is_expired (node_pool c ! i) (clock (0 + length dels))"
      "\<forall>j < length dels. is_expired (node_pool c ! (dels ! j)) (clock (0 + j))"
    by blast
  let ?D = "mset dels + mset (ptr_nodes r)"
  let ?c1 = "c\<lparr>midpoints := (midpoints c)\<lparr>midpoint_store := ?st[a := mid]\<rparr>\<rparr>"
  let ?c' = "c\<lparr>midpoints := (midpoints c)\<lparr>midpoint_store := ?st[a := mid]\<rparr>,
               freed := freed c @ dels\<rparr>"
  note sh = core_inv_shrink [OF inv ge(2) g(2) g(3) g(4)]
  have res: "get_highest_priority c clock key = Some (?c', r)"
    using Some g(1) by (simp add: get_highest_priority_def)
  have c'inv: "core_inv R (out \<union> set dels \<union> set (ptr_nodes r)) n ?c'"
    using sh(1) by (simp add: Un_assoc)
  have cnt: "count (mset (dels @ ptr_nodes r)) i = (if i \<in> set (dels @ ptr_nodes r) then 1 else 0)"
    for i
  proof (cases "i \<in># ?D")
    case True
    then have "count ?D i = 1" using sh(2) by blast
    then show ?thesis using True by simp
  next
    case False
    then have "count ?D i = 0" by (rule not_in_iff [THEN iffD1])
    then show ?thesis using False by simp
  qed
  have dist: "distinct (dels @ ptr_nodes r)"
    unfolding distinct_count_atmost_1 using cnt by blast
  have disj: "set (dels @ ptr_nodes r) \<inter> out = {}"
    using sh(2) by auto
  have rfacts: "i < n \<and> node_pool c ! i \<in> R key" if "r = Some i" for i
  proof -
    have "i \<in># slots (nodes (?st ! a))" using that g(4) by simp
    moreover have "i \<in># ?D" using that by simp
    ultimately show ?thesis
      using inv ge(1) sh(2) unfolding core_inv_def by blast
  qed
  show ?thesis
    using res c'inv dist disj rfacts g(5,6)
    by (intro exI [of _ ?c'] exI [of _ r] exI [of _ dels]) simp
qed

text \<open>
  The invariant of a sequence of calls.  The pool nodes in use are those below the pool
  index, and below \<open>max_nodes\<close>.
\<close>

definition cache_inv :: "(string \<Rightarrow> Node set) \<Rightarrow> nat set \<Rightarrow> RadialCircularList \<Rightarrow> bool" where
  "cache_inv R out c \<longleftrightarrow>
     core_inv R out (min (unat (pool_index c)) (unat (max_nodes c))) c \<and>
     total_nodes c \<le> max_nodes c \<and> set (freed c) \<subseteq> out"

lemma cache_inv_new: "cache_inv R {} (RadialCircularList_new clock max_n)"
  using core_inv_new [of R clock max_n]
  by (simp add: cache_inv_def RadialCircularList_new_fields)

lemma unat_add_nowrap:
  "unat (x :: u64) + n < 2 ^ 64 \<Longrightarrow> unat (x + word_of_nat n) = unat x + n"
  by (simp add: unat_word_ariths unat_of_nat)

lemma unat_Suc_nowrap:
  "unat (x :: u64) + 1 < 2 ^ 64 \<Longrightarrow> unat (x + 1) = unat x + 1"
  using unat_add_nowrap [of x 1] by simp

lemma word_Suc_le: "(x :: u64) < y \<Longrightarrow> x + 1 \<le> y"
  by (simp add: inc_le)

lemma insert_cache_inv:
  assumes inv: "cache_inv R out c"
      and nowrap: "unat (pool_index c) + 1 < 2 ^ 64"
      and R': "\<And>k. R k \<subseteq> R' k"
              "ok \<Longrightarrow> \<lparr>node_value = val, priority = prio, timestamp_ns = now_ns,
                expiry_time_ns = expiry_to_ns expiry_time\<rparr> \<in> R' key"
      and ins: "insert_cache c now_ns val key prio expiry_time = (c', ok)"
  shows "cache_inv R' out c' \<and> unat (pool_index c') \<le> unat (pool_index c) + 1
         \<and> max_nodes c' = max_nodes c \<and> freed c' = freed c"
proof -
  let ?n = "min (unat (pool_index c)) (unat (max_nodes c))"
  have core: "core_inv R out ?n c" and tot: "total_nodes c \<le> max_nodes c"
    and fr: "set (freed c) \<subseteq> out"
    using inv by (simp_all add: cache_inv_def)
  have suc: "unat (pool_index c + 1) = unat (pool_index c) + 1"
    using nowrap by (rule unat_Suc_nowrap)
  show ?thesis
  proof (cases "total_nodes c \<ge> max_nodes c")
    case True
    then have "c' = c" using ins by (simp add: insert_cache_def)
    moreover have "core_inv R' out ?n c"
      by (rule core_inv_mono [OF core R'(1)]) simp_all
    ultimately show ?thesis using tot fr by (simp add: cache_inv_def)
  next
    case False
    let ?c1 = "c\<lparr>pool_index := pool_index c + 1\<rparr>"
    show ?thesis
    proof (cases "pool_index c \<ge> max_nodes c")
      case True
      then have c': "c' = ?c1" using ins False by (simp add: insert_cache_def Let_def)
      have le: "unat (max_nodes c) \<le> unat (pool_index c)"
        using True by (simp add: word_le_nat_alt)
      have "core_inv R' out (min (unat (pool_index c + 1)) (unat (max_nodes c))) c"
        using le suc by (intro core_inv_mono [OF core R'(1)]) simp_all
      then show ?thesis
        using c' tot fr suc by (simp add: cache_inv_def)
    next
      case nofull: False
      then have lt: "unat (pool_index c) < unat (max_nodes c)"
        by (simp add: word_le_nat_alt)
      then have n: "?n = unat (pool_index c)" by simp
      obtain c2 ok2 where w: "write_and_push ?c1 now_ns (unat (pool_index c)) val key prio
          expiry_time = (c2, ok2)"
        by (cases "write_and_push ?c1 now_ns (unat (pool_index c)) val key prio expiry_time")
      have core1: "core_inv R out (unat (pool_index c)) ?c1"
        using core n by simp
      have ok2: "ok2 = ok"
        using ins False nofull w by (auto simp: insert_cache_def Let_def split: bool.splits)
      have core2: "core_inv R' out (Suc (unat (pool_index c))) c2"
        by (rule write_and_push_inv [OF core1 _ _ R'(1) _ w]) (use lt R'(2) ok2 in simp_all)
      note f = write_and_push_fields [OF w]
      have n2: "min (unat (pool_index c2)) (unat (max_nodes c2)) = Suc (unat (pool_index c))"
        using f suc lt by simp
      have c': "c' = (if ok2 then c2\<lparr>total_nodes := total_nodes c2 + 1\<rparr> else c2)"
        using ins False nofull w by (simp add: insert_cache_def Let_def split: bool.splits)
      have tot2: "total_nodes c2 + 1 \<le> max_nodes c2"
        using f False by (simp add: word_Suc_le)
      show ?thesis
        using c' core2 n2 f tot tot2 fr suc by (simp add: cache_inv_def)
    qed
  qed
qed

lemma insert_batch_loop_inv:
  assumes "core_inv R' out (unat start_index + i) c"
      and "unat start_index + i + length rest \<le> unat (max_nodes c)"
      and "\<forall>j < length rest. case rest ! j of (val, key, prio, expiry_time) \<Rightarrow>
             \<lparr>node_value = val, priority = prio, timestamp_ns = clock (i + j),
              expiry_time_ns = expiry_to_ns expiry_time\<rparr> \<in> R' key"
  shows "core_inv R' out (unat start_index + i + length rest)
           (insert_batch_loop c clock start_index i rest)"
  using assms
proof (induction rest arbitrary: c i)
  case Nil
  then show ?case by simp
next
  case (Cons item rest)
  obtain val key prio expiry_time where item: "item = (val, key, prio, expiry_time)"
    by (cases item)
  have node: "unat (start_index + word_of_nat i) = unat start_index + i"
    using Cons.prems(2) by (intro unat_add_of_nat [where y = "max_nodes c"]) simp
  obtain c1 ok where w: "write_and_push c (clock i) (unat start_index + i) val key prio
      expiry_time = (c1, ok)"
    by (cases "write_and_push c (clock i) (unat start_index + i) val key prio expiry_time")
  have rec: "\<lparr>node_value = val, priority = prio, timestamp_ns = clock i,
              expiry_time_ns = expiry_to_ns expiry_time\<rparr> \<in> R' key"
    using Cons.prems(3) item by (auto dest!: spec [of _ 0])
  have core1: "core_inv R' out (Suc (unat start_index + i)) c1"
    by (rule write_and_push_inv [where R = R' and R' = R' and n = "unat start_index + i",
          OF Cons.prems(1) _ _ _ rec w])
      (use Cons.prems(2) in simp_all)
  note f = write_and_push_fields [OF w]
  have rest: "\<forall>j < length rest. case rest ! j of (val, key, prio, expiry_time) \<Rightarrow>
             \<lparr>node_value = val, priority = prio, timestamp_ns = clock (Suc i + j),
              expiry_time_ns = expiry_to_ns expiry_time\<rparr> \<in> R' key"
  proof (intro allI impI)
    fix j assume "j < length rest"
    then have "Suc j < length (item # rest)" by simp
    from Cons.prems(3) [rule_format, OF this] show "case rest ! j of (val, key, prio, expiry_time) \<Rightarrow>
             \<lparr>node_value = val, priority = prio, timestamp_ns = clock (Suc i + j),
              expiry_time_ns = expiry_to_ns expiry_time\<rparr> \<in> R' key"
      by simp
  qed
  have "core_inv R' out (unat start_index + Suc i + length rest)
          (insert_batch_loop c1 clock start_index (Suc i) rest)"
    using core1 Cons.prems(2) f rest by (intro Cons.IH) simp_all
  then show ?case
    using w node by (simp add: item)
qed

lemma offered_by_batch_item:
  assumes "j < length batch" "batch ! j = (val, key, prio, expiry_time)"
  shows "\<lparr>node_value = val, priority = prio, timestamp_ns = clock j,
           expiry_time_ns = expiry_to_ns expiry_time\<rparr> \<in> set (offered_by key (InsertBatch clock batch))"
proof -
  have "(j, val, key, prio, expiry_time) \<in> set (enumerate 0 batch)"
    using assms by (simp add: in_set_enumerate_eq)
  then show ?thesis
    by (force simp: image_iff)
qed

lemma insert_batch_inv:
  assumes inv: "cache_inv R out c"
      and nowrap: "unat (pool_index c) + length batch < 2 ^ 64"
      and R': "\<And>k. R k \<subseteq> R' k"
      and items: "ok \<Longrightarrow> \<forall>j < length batch. case batch ! j of (val, key, prio, expiry_time) \<Rightarrow>
             \<lparr>node_value = val, priority = prio, timestamp_ns = clock j,
              expiry_time_ns = expiry_to_ns expiry_time\<rparr> \<in> R' key"
      and ins: "insert_batch c clock batch = (c', ok)"
  shows "cache_inv R' out c' \<and> unat (pool_index c') \<le> unat (pool_index c) + length batch
         \<and> max_nodes c' = max_nodes c \<and> freed c' = freed c"
proof -
  let ?n = "min (unat (pool_index c)) (unat (max_nodes c))"
  let ?bs = "word_of_nat (length batch) :: u64"
  have core: "core_inv R out ?n c" and tot: "total_nodes c \<le> max_nodes c"
    and fr: "set (freed c) \<subseteq> out"
    using inv by (simp_all add: cache_inv_def)
  have core': "core_inv R' out ?n c"
    by (rule core_inv_mono [OF core R']) simp_all
  have p: "unat (pool_index c + ?bs) = unat (pool_index c) + length batch"
    using nowrap by (rule unat_add_nowrap)
  show ?thesis
  proof (cases "total_nodes c + ?bs > max_nodes c")
    case True
    then have "c' = c" using ins by (simp add: insert_batch_def Let_def)
    then show ?thesis using core' tot fr by (simp add: cache_inv_def)
  next
    case chk1: False
    let ?c1 = "c\<lparr>pool_index := pool_index c + ?bs\<rparr>"
    show ?thesis
    proof (cases "pool_index c + ?bs > max_nodes c")
      case True
      then have c': "c' = ?c1" using ins chk1 by (simp add: insert_batch_def Let_def)
      have "core_inv R' out (min (unat (pool_index c + ?bs)) (unat (max_nodes c))) c"
        using p by (intro core_inv_mono [OF core R']) simp_all
      then show ?thesis
        using c' tot fr p by (simp add: cache_inv_def)
    next
      case chk2: False
      then have le: "unat (pool_index c) + length batch \<le> unat (max_nodes c)"
        using p by (simp add: word_less_nat_alt)
      then have n: "?n = unat (pool_index c)" by simp
      let ?c2 = "insert_batch_loop ?c1 clock (pool_index c) 0 batch"
      have c': "c' = ?c2\<lparr>total_nodes := total_nodes ?c2 + ?bs\<rparr>" and ok: "ok"
        using ins chk1 chk2 by (simp_all add: insert_batch_def Let_def)
      have "core_inv R' out (unat (pool_index c) + 0 + length batch) ?c2"
        using core' n le items [OF ok] by (intro insert_batch_loop_inv) simp_all
      moreover note f = insert_batch_loop_fields [of ?c1 clock "pool_index c" 0 batch]
      moreover have "total_nodes c + ?bs \<le> max_nodes c"
        using chk1 by simp
      ultimately show ?thesis
        using c' f p le fr by (simp add: cache_inv_def)
    qed
  qed
qed

lemma cache_inv_mono:
  assumes "cache_inv R out c" "\<And>k. R k \<subseteq> R' k"
  shows "cache_inv R' out c"
proof -
  have core: "core_inv R out (min (unat (pool_index c)) (unat (max_nodes c))) c"
    using assms(1) by (simp add: cache_inv_def)
  have "core_inv R' out (min (unat (pool_index c)) (unat (max_nodes c))) c"
    by (rule core_inv_mono [OF core assms(2)]) simp_all
  then show ?thesis using assms(1) by (simp add: cache_inv_def)
qed

lemma get_highest_priority_cache_inv:
  assumes inv: "cache_inv R out c"
  shows "\<exists>c' r dels. get_highest_priority c clock key = Some (c', r)
           \<and> freed c' = freed c @ dels
           \<and> cache_inv R (out \<union> set dels \<union> set (ptr_nodes r)) c'
           \<and> distinct (dels @ ptr_nodes r) \<and> set (dels @ ptr_nodes r) \<inter> out = {}
           \<and> (\<forall>i. r = Some i \<longrightarrow> i < unat (max_nodes c') \<and> i < unat (pool_index c')
                  \<and> node_pool c' ! i \<in> R key
                  \<and> \<not> is_expired (node_pool c' ! i) (clock (length dels)))
           \<and> (\<forall>j < length dels. is_expired (node_pool c' ! (dels ! j)) (clock j))
           \<and> node_pool c' = node_pool c \<and> pool_index c' = pool_index c
           \<and> total_nodes c' = total_nodes c \<and> max_nodes c' = max_nodes c"
proof -
  let ?n = "min (unat (pool_index c)) (unat (max_nodes c))"
  have core: "core_inv R out ?n c"
    using inv by (simp add: cache_inv_def)
  from get_highest_priority_inv [OF core, of clock key]
  obtain c' r dels where g: "get_highest_priority c clock key = Some (c', r)"
      "freed c' = freed c @ dels"
      "core_inv R (out \<union> set dels \<union> set (ptr_nodes r)) ?n c'"
      "distinct (dels @ ptr_nodes r)" "set (dels @ ptr_nodes r) \<inter> out = {}"
      "\<forall>i. r = Some i \<longrightarrow> i < ?n \<and> node_pool c' ! i \<in> R key
                  \<and> \<not> is_expired (node_pool c' ! i) (clock (length dels))"
      "\<forall>j < length dels. is_expired (node_pool c' ! (dels ! j)) (clock j)"
      "node_pool c' = node_pool c" "pool_index c' = pool_index c"
      "total_nodes c' = total_nodes c" "max_nodes c' = max_nodes c"
    by blast
  have "cache_inv R (out \<union> set dels \<union> set (ptr_nodes r)) c'"
    using g(2,3,9,10,11) inv by (auto simp: cache_inv_def)
  then show ?thesis
    using g by (intro exI [of _ c'] exI [of _ r] exI [of _ dels]) simp
qed

lemma get_highest_priority_batch_loop_inv:
  assumes "cache_inv R out c"
  shows "\<exists>c' rs out'. get_highest_priority_batch_loop c clocks i keys = Some (c', rs)
           \<and> cache_inv R out' c' \<and> out \<union> set (concat (map ptr_nodes rs)) \<subseteq> out'
           \<and> distinct (concat (map ptr_nodes rs)) \<and> set (concat (map ptr_nodes rs)) \<inter> out = {}
           \<and> pool_index c' = pool_index c \<and> max_nodes c' = max_nodes c"
  using assms
proof (induction keys arbitrary: c i out)
  case Nil
  then show ?case by auto
next
  case (Cons key keys)
  from get_highest_priority_cache_inv [OF Cons.prems, of "clocks i" key]
  obtain c1 r dels where g: "get_highest_priority c (clocks i) key = Some (c1, r)"
      "cache_inv R (out \<union> set dels \<union> set (ptr_nodes r)) c1"
      "distinct (dels @ ptr_nodes r)" "set (dels @ ptr_nodes r) \<inter> out = {}"
      "pool_index c1 = pool_index c" "max_nodes c1 = max_nodes c"
    by blast
  from Cons.IH [OF g(2), of "Suc i"]
  obtain c2 rs out' where l: "get_highest_priority_batch_loop c1 clocks (Suc i) keys = Some (c2, rs)"
      "cache_inv R out' c2"
      "out \<union> set dels \<union> set (ptr_nodes r) \<union> set (concat (map ptr_nodes rs)) \<subseteq> out'"
      "distinct (concat (map ptr_nodes rs))"
      "set (concat (map ptr_nodes rs)) \<inter> (out \<union> set dels \<union> set (ptr_nodes r)) = {}"
      "pool_index c2 = pool_index c1" "max_nodes c2 = max_nodes c1"
    by blast
  have "get_highest_priority_batch_loop c clocks i (key # keys) = Some (c2, r # rs)"
    using g(1) l(1) by simp
  moreover have "distinct (concat (map ptr_nodes (r # rs)))"
    using g(3) l(4,5) by auto
  moreover have "set (concat (map ptr_nodes (r # rs))) \<inter> out = {}"
    using g(4) l(5) by auto
  moreover have "out \<union> set (concat (map ptr_nodes (r # rs))) \<subseteq> out'"
    using l(3) by auto
  ultimately show ?case
    using l(2,6,7) g(5,6) by (intro exI [of _ c2] exI [of _ "r # rs"] exI [of _ out']) simp
qed

lemma step_inv:
  assumes inv: "cache_inv R out c"
      and nowrap: "unat (pool_index c) + requested_by x < 2 ^ 64"
  shows "\<exists>c' r out'. step c x = Some (c', r)
           \<and> cache_inv (\<lambda>k. R k \<union> set (accepted_by k x r)) out' c'
           \<and> out \<union> set (reply_nodes r) \<subseteq> out'
           \<and> distinct (reply_nodes r) \<and> set (reply_nodes r) \<inter> out = {}
           \<and> unat (pool_index c') \<le> unat (pool_index c) + requested_by x
           \<and> max_nodes c' = max_nodes c"
proof (cases x)
  case (Insert now_ns val key prio expiry_time)
  obtain c' ok where ins: "insert_cache c now_ns val key prio expiry_time = (c', ok)"
    by (cases "insert_cache c now_ns val key prio expiry_time")
  have "cache_inv (\<lambda>k. R k \<union> set (accepted_by k x (Flag ok))) out c'
         \<and> unat (pool_index c') \<le> unat (pool_index c) + 1
         \<and> max_nodes c' = max_nodes c \<and> freed c' = freed c"
    by (rule insert_cache_inv [OF inv _ _ _ ins]) (use nowrap Insert in auto)
  then show ?thesis
    using ins Insert by (intro exI [of _ c'] exI [of _ "Flag ok"] exI [of _ out]) simp
next
  case (InsertBatch clock batch)
  obtain c' ok where ins: "insert_batch c clock batch = (c', ok)"
    by (cases "insert_batch c clock batch")
  have "cache_inv (\<lambda>k. R k \<union> set (accepted_by k x (Flag ok))) out c'
         \<and> unat (pool_index c') \<le> unat (pool_index c) + length batch
         \<and> max_nodes c' = max_nodes c \<and> freed c' = freed c"
  proof (rule insert_batch_inv [OF inv _ _ _ ins])
    show "unat (pool_index c) + length batch < 2 ^ 64"
      using nowrap InsertBatch by simp
    show "R k \<subseteq> R k \<union> set (accepted_by k x (Flag ok))" for k by simp
    assume ok: "ok"
    show "\<forall>j < length batch. case batch ! j of (val, key, prio, expiry_time) \<Rightarrow>
             \<lparr>node_value = val, priority = prio, timestamp_ns = clock j,
              expiry_time_ns = expiry_to_ns expiry_time\<rparr>
             \<in> R key \<union> set (accepted_by key x (Flag ok))"
    proof (intro allI impI)
      fix j assume j: "j < length batch"
      obtain val key prio expiry_time where it: "batch ! j = (val, key, prio, expiry_time)"
        by (cases "batch ! j")
      from offered_by_batch_item [OF j it, of clock]
      show "case batch ! j of (val, key, prio, expiry_time) \<Rightarrow>
             \<lparr>node_value = val, priority = prio, timestamp_ns = clock j,
              expiry_time_ns = expiry_to_ns expiry_time\<rparr>
             \<in> R key \<union> set (accepted_by key x (Flag ok))"
        using it InsertBatch ok by simp
    qed
  qed
  then show ?thesis
    using ins InsertBatch by (intro exI [of _ c'] exI [of _ "Flag ok"] exI [of _ out]) simp
next
  case (GetHighestPriority clock key)
  from get_highest_priority_cache_inv [OF inv, of clock key]
  obtain c' r dels where g: "get_highest_priority c clock key = Some (c', r)"
      "cache_inv R (out \<union> set dels \<union> set (ptr_nodes r)) c'"
      "distinct (dels @ ptr_nodes r)" "set (dels @ ptr_nodes r) \<inter> out = {}"
      "pool_index c' = pool_index c" "max_nodes c' = max_nodes c"
    by blast
  have "cache_inv (\<lambda>k. R k \<union> set (accepted_by k x (Ptr r)))
          (out \<union> set dels \<union> set (ptr_nodes r)) c'"
    by (rule cache_inv_mono [OF g(2)]) simp
  moreover have "set (ptr_nodes r) \<inter> out = {}" "distinct (ptr_nodes r)"
    using g(3,4) by auto
  ultimately show ?thesis
    using g(1,5,6) GetHighestPriority
    by (intro exI [of _ c'] exI [of _ "Ptr r"] exI [of _ "out \<union> set dels \<union> set (ptr_nodes r)"])
      auto
next
  case (GetHighestPriorityBatch clocks keys)
  from get_highest_priority_batch_loop_inv [OF inv, of clocks 0 keys]
  obtain c' rs out' where g: "get_highest_priority_batch_loop c clocks 0 keys = Some (c', rs)"
      "cache_inv R out' c'" "out \<union> set (concat (map ptr_nodes rs)) \<subseteq> out'"
      "distinct (concat (map ptr_nodes rs))" "set (concat (map ptr_nodes rs)) \<inter> out = {}"
      "pool_index c' = pool_index c" "max_nodes c' = max_nodes c"
    by blast
  have "cache_inv (\<lambda>k. R k \<union> set (accepted_by k x (Ptrs rs))) out' c'"
    by (rule cache_inv_mono [OF g(2)]) simp
  then show ?thesis
    using g GetHighestPriorityBatch
    by (intro exI [of _ c'] exI [of _ "Ptrs rs"] exI [of _ out'])
      (simp add: get_highest_priority_batch_def)
qed

lemma run_inv:
  assumes "cache_inv R out c"
      and "unat (pool_index c) + requested xs < 2 ^ 64"
  shows "\<exists>c' rs out'. run c xs = Some (c', rs)
           \<and> cache_inv (\<lambda>k. R k \<union> set (accepted k xs rs)) out' c'
           \<and> out \<union> set (returned rs) \<subseteq> out'
           \<and> distinct (returned rs) \<and> set (returned rs) \<inter> out = {}
           \<and> unat (pool_index c') \<le> unat (pool_index c) + requested xs
           \<and> max_nodes c' = max_nodes c \<and> length rs = length xs"
  using assms
proof (induction xs arbitrary: c R out)
  case Nil
  then show ?case by (auto simp: accepted_def returned_def requested_def)
next
  case (Cons x xs)
  have nw: "unat (pool_index c) + requested_by x < 2 ^ 64"
    using Cons.prems(2) by (simp add: requested_def)
  from step_inv [OF Cons.prems(1) nw]
  obtain c1 r out1 where s: "step c x = Some (c1, r)"
      "cache_inv (\<lambda>k. R k \<union> set (accepted_by k x r)) out1 c1"
      "out \<union> set (reply_nodes r) \<subseteq> out1"
      "distinct (reply_nodes r)" "set (reply_nodes r) \<inter> out = {}"
      "unat (pool_index c1) \<le> unat (pool_index c) + requested_by x"
      "max_nodes c1 = max_nodes c"
    by blast
  have nw1: "unat (pool_index c1) + requested xs < 2 ^ 64"
    using Cons.prems(2) s(6) by (simp add: requested_def)
  from Cons.IH [OF s(2) nw1]
  obtain c2 rs out2 where r: "run c1 xs = Some (c2, rs)"
      "cache_inv (\<lambda>k. R k \<union> set (accepted_by k x r) \<union> set (accepted k xs rs)) out2 c2"
      "out1 \<union> set (returned rs) \<subseteq> out2"
      "distinct (returned rs)" "set (returned rs) \<inter> out1 = {}"
      "unat (pool_index c2) \<le> unat (pool_index c1) + requested xs"
      "max_nodes c2 = max_nodes c1" "length rs = length xs"
    by blast
  have "run c (x # xs) = Some (c2, r # rs)"
    using s(1) r(1) by simp
  moreover have "cache_inv (\<lambda>k. R k \<union> set (accepted k (x # xs) (r # rs))) out2 c2"
    by (rule cache_inv_mono [OF r(2)]) (auto simp: accepted_def)
  moreover have "distinct (returned (r # rs))"
    using s(3,4) r(4,5) by (auto simp: returned_def)
  moreover have "set (returned (r # rs)) \<inter> out = {}"
    using s(3,5) r(5) by (auto simp: returned_def)
  moreover have "out \<union> set (returned (r # rs)) \<subseteq> out2"
    using s(3) r(3) by (auto simp: returned_def)
  moreover have "unat (pool_index c2) \<le> unat (pool_index c) + requested (x # xs)"
    using s(6) r(6) by (simp add: requested_def)
  ultimately show ?case
    using r(7,8) s(7) by (intro exI [of _ c2] exI [of _ "r # rs"] exI [of _ out2]) simp
qed

section \<open>Sequences of calls on a new cache\<close>

lemma run_new_inv:
  assumes "requested calls < 2 ^ 64"
  shows "\<exists>c rs out. run (RadialCircularList_new clock max_n) calls = Some (c, rs)
           \<and> cache_inv (\<lambda>k. set (accepted k calls rs)) out c
           \<and> set (returned rs) \<subseteq> out \<and> distinct (returned rs)
           \<and> unat (pool_index c) \<le> requested calls \<and> max_nodes c = max_n
           \<and> length rs = length calls"
proof -
  have inv0: "cache_inv (\<lambda>k. {}) {} (RadialCircularList_new clock max_n)"
    by (rule cache_inv_new)
  have nw: "unat (pool_index (RadialCircularList_new clock max_n)) + requested calls < 2 ^ 64"
    using assms by (simp add: RadialCircularList_new_fields)
  from run_inv [OF inv0 nw]
  obtain c rs out where r: "run (RadialCircularList_new clock max_n) calls = Some (c, rs)"
      "cache_inv (\<lambda>k. {} \<union> set (accepted k calls rs)) out c"
      "{} \<union> set (returned rs) \<subseteq> out" "distinct (returned rs)"
      "unat (pool_index c) \<le> unat (pool_index (RadialCircularList_new clock max_n)) + requested calls"
      "max_nodes c = max_nodes (RadialCircularList_new clock max_n)"
      "length rs = length calls"
    by blast
  then show ?thesis
    by (intro exI [of _ c] exI [of _ rs] exI [of _ out]) (simp add: RadialCircularList_new_fields)
qed

lemma four_inserts_capacity_three:
  "map_option (\<lambda>r. (pool_index (fst r), max_nodes (fst r), snd r))
     (run (RadialCircularList_new (\<lambda>i. 0) 3)
        [Insert 1 100 ''AAPL'' 1 60, Insert 2 101 ''AAPL'' 3 60,
         Insert 3 100.5 ''AAPL'' 2 60, Insert 4 102 ''AAPL'' 4 60])
   = Some (4, 3, [Flag False, Flag False, Flag False, Flag False])"
  by (simp add: exec_defs)

lemma eleven_inserts_capacity_ten:
  "map_option (\<lambda>r. (pool_index (fst r), max_nodes (fst r), total_nodes (fst r), snd r))
     (run (RadialCircularList_new (\<lambda>i. 0) 10)
        [Insert 1 100 ''AAPL'' 1 60, Insert 2 101 ''AAPL'' 2 60,
         Insert 3 102 ''AAPL'' 3 60, Insert 4 103 ''AAPL'' 4 60,
         Insert 5 104 ''AAPL'' 5 60, Insert 6 105 ''AAPL'' 6 60,
         Insert 7 106 ''AAPL'' 7 60, Insert 8 107 ''AAPL'' 8 60,
         Insert 9 108 ''AAPL'' 9 60, Insert 10 109 ''AAPL'' 10 60,
         Insert 11 110 ''AAPL'' 11 60])
   = Some (11, 10, 1, [Flag True, Flag False, Flag False, Flag False, Flag False, Flag False,
                       Flag False, Flag False, Flag False, Flag False, Flag False])"
  by (simp add: exec_defs word_le_nat_alt)

lemma insert_after_batch_capacity_five:
  "map_option (\<lambda>r. (pool_index (fst r), total_nodes (fst r), snd r))
     (run (RadialCircularList_new (\<lambda>i. 0) 5)
        [InsertBatch (\<lambda>i. 1) [(100, ''AAPL'', 1, 60), (101, ''AAPL'', 2, 60),
                                 (102, ''AAPL'', 3, 60), (103, ''AAPL'', 4, 60),
                                 (104, ''AAPL'', 5, 60)],
         Insert 2 105 ''AAPL'' 6 60])
   = Some (5, 5, [Flag True, Flag False])"
  by (simp add: exec_defs insert_batch_def word_le_nat_alt word_less_nat_alt)

section \<open>One bucket per key\<close>

lemma entries_nth:
  "i < length (buckets t) \<Longrightarrow> e \<in> set (buckets t ! i) \<Longrightarrow> e \<in> entries t"
  unfolding entries_def using nth_mem by blast

lemma interleave_alone:
  "interleave [(key, cap)] [0, 0, 0] (t, [Start])
     = (fst (get_or_create t key cap), [Done (snd (get_or_create t key cap))])"
  by (cases "traverse (buckets t ! hash char_is_signed key) key")
    (simp_all add: get_or_create_def Let_def)

text \<open>
  One thread at a time, \<^verbatim>\<open>get_or_create\<close> keeps one bucket per key: every node is in the
  shard of its key, and no shard has two nodes with the same key.
\<close>

definition keys_unique :: "LockFreeHashTable \<Rightarrow> bool" where
  "keys_unique t \<longleftrightarrow>
     length (buckets t) = BUCKETS \<and>
     (\<forall>i < BUCKETS. \<forall>(k, a) \<in> set (buckets t ! i). hash char_is_signed k = i) \<and>
     (\<forall>i < BUCKETS. distinct (map fst (buckets t ! i)))"

lemma traverse_None: "traverse shard key = None \<Longrightarrow> key \<notin> fst ` set shard"
  by (induction shard key rule: traverse.induct) (auto split: if_splits)

lemma keys_unique_new: "keys_unique (LockFreeHashTable_new cap)"
  by (simp add: keys_unique_def LockFreeHashTable_new_def)

lemma get_or_create_keys_unique:
  assumes "keys_unique t"
  shows "keys_unique (fst (get_or_create t key cap))"
proof (cases "traverse (buckets t ! hash char_is_signed key) key")
  case (Some v)
  then show ?thesis using assms by (simp add: get_or_create_def)
next
  case None
  let ?i = "hash char_is_signed key"
  have i: "?i < BUCKETS" by (rule hash_lt_BUCKETS)
  have fresh: "key \<notin> fst ` set (buckets t ! ?i)"
    using None by (rule traverse_None)
  have "keys_unique (t\<lparr>buckets := (buckets t)[?i := (key, length (midpoint_store t)) # buckets t ! ?i],
                       midpoint_store := midpoint_store t @ [MidpointNode_new cap]\<rparr>)"
    using assms i fresh unfolding keys_unique_def
    by (auto simp: nth_list_update)
  then show ?thesis
    using None by (simp add: get_or_create_def Let_def)
qed

lemma keys_unique_one_bucket:
  assumes "keys_unique t" "(k, a) \<in> entries t" "(k, a') \<in> entries t"
  shows "a = a'"
proof -
  have shard: "(k, b) \<in> set (buckets t ! hash char_is_signed k)" if "(k, b) \<in> entries t" for b
  proof -
    from that obtain sh where "sh \<in> set (buckets t)" "(k, b) \<in> set sh"
      by (auto simp: entries_def)
    then obtain i where i: "i < length (buckets t)" "(k, b) \<in> set (buckets t ! i)"
      by (metis in_set_conv_nth)
    then have "hash char_is_signed k = i"
      using assms(1) unfolding keys_unique_def by fastforce
    then show ?thesis using i(2) by simp
  qed
  have "distinct (map fst (buckets t ! hash char_is_signed k))"
    using assms(1) hash_lt_BUCKETS unfolding keys_unique_def by blast
  then show ?thesis
    using shard [OF assms(2)] shard [OF assms(3)] by (rule eq_key_imp_eq_value)
qed

section \<open>Expiry\<close>

text \<open>
  C7.  \<^verbatim>\<open>is_expired\<close> is the strict comparison \<open>now_ns - timestamp_ns > expiry_time_ns\<close>
  on 64-bit unsigned values (the same comparison on natural numbers when the clock has
  not gone back behind the timestamp).  A record exactly at the boundary is not expired,
  and when \<^verbatim>\<open>pop\<close> hands such a record to \<^verbatim>\<open>get_highest_priority_node\<close> it is returned,
  not deleted.
\<close>

theorem is_expired_strict_boundary:
  "(is_expired n now_ns \<longleftrightarrow> expiry_time_ns n < now_ns - timestamp_ns n)
   \<and> (now_ns - timestamp_ns n = expiry_time_ns n \<longrightarrow> \<not> is_expired n now_ns)
   \<and> (timestamp_ns n \<le> now_ns \<longrightarrow>
        (is_expired n now_ns \<longleftrightarrow> unat (expiry_time_ns n) < unat now_ns - unat (timestamp_ns n)))
   \<and> (0 < heap_size (nodes m) \<and> pop pool (nodes m) = Some (h, Some node)
        \<and> clock k - timestamp_ns (pool ! node) = expiry_time_ns (pool ! node) \<longrightarrow>
        get_highest_priority_node pool clock k freed_nodes m
          = Some (m\<lparr>nodes := h\<rparr>, freed_nodes, Some node))"
  by (auto simp: is_expired_def word_less_nat_alt unat_sub get_highest_priority_node.simps)

theorem is_expired_strict_boundary_witness:
  "(150 :: u64) - 100 = 50
   \<and> (100 :: u64) \<le> 150
   \<and> \<not> is_expired \<lparr>node_value = 1, priority = 1, timestamp_ns = 100, expiry_time_ns = 50\<rparr> 150
   \<and> is_expired \<lparr>node_value = 1, priority = 1, timestamp_ns = 100, expiry_time_ns = 50\<rparr> 151
   \<and> pop [\<lparr>node_value = 1, priority = 1, timestamp_ns = 100, expiry_time_ns = 50\<rparr>]
         \<lparr>heap = [Some 0], heap_size = 1, capacity = 1\<rparr>
       = Some (\<lparr>heap = [None], heap_size = 0, capacity = 1\<rparr>, Some 0)
   \<and> get_highest_priority_node
         [\<lparr>node_value = 1, priority = 1, timestamp_ns = 100, expiry_time_ns = 50\<rparr>]
         (\<lambda>k. 150) 0 [] \<lparr>nodes = \<lparr>heap = [Some 0], heap_size = 1, capacity = 1\<rparr>\<rparr>
       = Some (\<lparr>nodes = \<lparr>heap = [None], heap_size = 0, capacity = 1\<rparr>\<rparr>, [], Some 0)"
  using is_expired_strict_boundary
    [where n = "\<lparr>node_value = 1, priority = 1, timestamp_ns = 100, expiry_time_ns = 50\<rparr>"
       and now_ns = 150
       and m = "\<lparr>nodes = \<lparr>heap = [Some 0], heap_size = 1, capacity = 1\<rparr>\<rparr>"
       and pool = "[\<lparr>node_value = 1, priority = 1, timestamp_ns = 100, expiry_time_ns = 50\<rparr>]"
       and h = "\<lparr>heap = [None], heap_size = 0, capacity = 1\<rparr>"
       and node = 0 and clock = "\<lambda>k. 150" and k = 0 and freed_nodes = "[]"]
  by (simp add: pop_def is_expired_def)

section \<open>The shard of a key\<close>

lemma take_bit_mult_u64:
  "take_bit n (take_bit n a * take_bit n b) = take_bit n (a * b :: u64)"
  by transfer (simp add: take_bit_mult)

lemma take_bit_char_to_u64:
  "take_bit 6 (char_to_u64 s c) = take_bit 6 (ucast (of_char c :: 8 word) :: u64)"
proof (cases s)
  case True
  show ?thesis
    by (rule bit_eqI)
      (auto simp: True char_to_u64_def bit_take_bit_iff bit_word_scast_iff bit_word_ucast_iff)
next
  case False
  then show ?thesis by (simp add: char_to_u64_def)
qed

lemma fnv_step_low_bits:
  assumes "take_bit 6 h1 = take_bit 6 (h2 :: u64)"
  shows "take_bit 6 ((h1 XOR char_to_u64 s c) * FNV_PRIME)
       = take_bit 6 ((h2 XOR ucast (of_char c :: 8 word)) * 0x100000001b3)"
proof -
  have "take_bit 6 (h1 XOR char_to_u64 s c) = take_bit 6 (h2 XOR ucast (of_char c :: 8 word))"
    by (simp add: take_bit_xor assms take_bit_char_to_u64)
  then have "take_bit 6 (take_bit 6 (h1 XOR char_to_u64 s c) * take_bit 6 FNV_PRIME)
      = take_bit 6 (take_bit 6 (h2 XOR ucast (of_char c :: 8 word)) * take_bit 6 FNV_PRIME)"
    by simp
  then show ?thesis
    unfolding take_bit_mult_u64 by (simp add: FNV_PRIME_def)
qed

lemma fnv_fold_low_bits:
  "take_bit 6 h1 = take_bit 6 (h2 :: u64) \<Longrightarrow>
   take_bit 6 (fold (\<lambda>c h. (h XOR char_to_u64 s c) * FNV_PRIME) key h1)
     = take_bit 6 (fold (\<lambda>b h. (h XOR ucast b) * 0x100000001b3)
                     (map of_char key :: 8 word list) h2)"
proof (induction key arbitrary: h1 h2)
  case Nil
  then show ?case by simp
next
  case (Cons c key)
  show ?case
    using Cons.IH [OF fnv_step_low_bits [OF Cons.prems, of s c]] by simp
qed

text \<open>
  C9.  Whether \<^verbatim>\<open>char\<close> is signed or not, the shard index that \<^verbatim>\<open>hash\<close> computes is the
  64-bit FNV-1a hash of the key's bytes, reduced modulo \<open>BUCKETS = 64\<close>.  (Sign extension of
  a byte above \<open>0x7f\<close> changes bits 8 to 63 of the running hash only; the low six bits of
  a product depend on the low six bits of its factors only.)
\<close>

theorem hash_is_fnv1a_mod_buckets:
  "hash char_signed key = unat (fnv1a_64 (utf8_bytes key)) mod BUCKETS \<and> BUCKETS = 64"
proof -
  have "take_bit 6 (fold (\<lambda>c h. (h XOR char_to_u64 char_signed c) * FNV_PRIME) key FNV_OFFSET)
      = take_bit 6 (fnv1a_64 (utf8_bytes key))"
    unfolding fnv1a_64_def utf8_bytes_def
    by (rule fnv_fold_low_bits) (simp add: FNV_OFFSET_def)
  then have "unat (take_bit 6
        (fold (\<lambda>c h. (h XOR char_to_u64 char_signed c) * FNV_PRIME) key FNV_OFFSET))
      = unat (take_bit 6 (fnv1a_64 (utf8_bytes key)))"
    by simp
  then show ?thesis
    by (simp add: hash_def BUCKETS_def take_bit_eq_mod unat_mod)
qed

section \<open>Small caches\<close>

text \<open>
  C3 (as amended).  On a cache constructed with \<open>max_nodes = 3\<close> every bucket has capacity
  \<open>3 / 10 = 0\<close>, so four successive calls of \<^verbatim>\<open>insert\<close>, whatever their arguments
  and clock readings, all return \<^verbatim>\<open>false\<close>: none of the first three returns \<^verbatim>\<open>true\<close>.
\<close>

theorem capacity_three_all_inserts_fail:
  "map_option snd
     (run (RadialCircularList_new clock 3)
        [Insert n1 v1 k1 p1 e1, Insert n2 v2 k2 p2 e2,
         Insert n3 v3 k3 p3 e3, Insert n4 v4 k4 p4 e4])
   = Some [Flag False, Flag False, Flag False, Flag False]"
proof -
  have s0: "small_inv (RadialCircularList_new clock 3)"
    by (rule small_inv_new) simp
  from insert_cache_small [OF s0, of n1 v1 k1 p1 e1]
  obtain c1 where c1: "insert_cache (RadialCircularList_new clock 3) n1 v1 k1 p1 e1 = (c1, False)"
    "small_inv c1" by blast
  from insert_cache_small [OF c1(2), of n2 v2 k2 p2 e2]
  obtain c2 where c2: "insert_cache c1 n2 v2 k2 p2 e2 = (c2, False)" "small_inv c2" by blast
  from insert_cache_small [OF c2(2), of n3 v3 k3 p3 e3]
  obtain c3 where c3: "insert_cache c2 n3 v3 k3 p3 e3 = (c3, False)" "small_inv c3" by blast
  from insert_cache_small [OF c3(2), of n4 v4 k4 p4 e4]
  obtain c4 where c4: "insert_cache c3 n4 v4 k4 p4 e4 = (c4, False)" by blast
  show ?thesis
    by (simp add: c1 c2 c3 c4)
qed

theorem capacity_three_all_inserts_fail_witness:
  "map_option snd
     (run (RadialCircularList_new (\<lambda>i. 0) 3)
        [Insert 1 100 ''AAPL'' 1 60, Insert 2 101 ''AAPL'' 3 60,
         Insert 3 100.5 ''GOOG'' 2 60, Insert 4 102 ''MSFT'' 5 60])
   = Some [Flag False, Flag False, Flag False, Flag False]"
  by (rule capacity_three_all_inserts_fail)

text \<open>The first insert of the scenario already returns \<^verbatim>\<open>false\<close>.\<close>

theorem capacity_three_counterexample:
  "snd (insert_cache (RadialCircularList_new (\<lambda>i. 0) 3) 1 100 ''AAPL'' 1 60) = False"
  by (simp add: insert_cache_def RadialCircularList_new_def write_and_push_def
      get_or_create_def LockFreeHashTable_new_def BUCKETS_def Let_def
      MidpointNode_new_def LockFreeHeap_new_def add_node_def push_def unat_div hash_AAPL)

text \<open>
  C10 (as amended).  On a cache constructed with \<open>max_nodes < 10\<close>, after any sequence of
  calls, every call of \<^verbatim>\<open>insert\<close> returns \<^verbatim>\<open>false\<close>.  The call advances the pool index by
  one (modulo \<open>2 ^ 64\<close>) exactly when it passes the first check, \<open>total_nodes < max_nodes\<close>;
  \<open>total_nodes\<close> is still zero when no \<^verbatim>\<open>insert_batch\<close> has been called.  So the index advances
  on each attempt for \<open>1 \<le> max_nodes < 10\<close> without batches, and never for \<open>max_nodes = 0\<close>.
\<close>

theorem small_cache_insert_fails:
  assumes "max_n < 10"
  shows "\<exists>c rs. run (RadialCircularList_new clock max_n) calls = Some (c, rs)
           \<and> (\<forall>i < length calls. is_Insert (calls ! i) \<longrightarrow> rs ! i = Flag False)
           \<and> (\<forall>now_ns val key prio expiry_time. \<exists>c'.
                 insert_cache c now_ns val key prio expiry_time = (c', False)
                 \<and> pool_index c' = (if total_nodes c < max_n then pool_index c + 1 else pool_index c))
           \<and> ((\<forall>x \<in> set calls. \<not> is_InsertBatch x) \<longrightarrow> total_nodes c = 0)"
proof -
  have s0: "small_inv (RadialCircularList_new clock max_n)"
    using assms by (rule small_inv_new)
  from run_small [OF s0, of calls]
  obtain c rs where r: "run (RadialCircularList_new clock max_n) calls = Some (c, rs)"
      "small_inv c" "max_nodes c = max_nodes (RadialCircularList_new clock max_n)"
      "\<forall>i < length calls. is_Insert (calls ! i) \<longrightarrow> rs ! i = Flag False"
      "(\<forall>x \<in> set calls. \<not> is_InsertBatch x) \<longrightarrow>
         total_nodes c = total_nodes (RadialCircularList_new clock max_n) \<and> returned rs = []"
    by blast
  have mx: "max_nodes c = max_n"
    using r(3) by (simp add: RadialCircularList_new_def)
  have "\<exists>c'. insert_cache c now_ns val key prio expiry_time = (c', False)
          \<and> pool_index c' = (if total_nodes c < max_n then pool_index c + 1 else pool_index c)"
    for now_ns val key prio expiry_time
    using insert_cache_small [OF r(2), of now_ns val key prio expiry_time] mx by auto
  moreover have "(\<forall>x \<in> set calls. \<not> is_InsertBatch x) \<longrightarrow> total_nodes c = 0"
    using r(5) by (simp add: RadialCircularList_new_def)
  ultimately show ?thesis
    using r(1) r(4) by blast
qed

theorem small_cache_insert_fails_witness:
  "(3 :: u64) < 10
   \<and> (\<exists>c rs. run (RadialCircularList_new (\<lambda>i. 0) 3)
                 [Insert 1 100 ''AAPL'' 1 60, GetHighestPriority (\<lambda>i. 2) ''AAPL''] = Some (c, rs)
        \<and> rs ! 0 = Flag False
        \<and> snd (insert_cache c 3 101 ''AAPL'' 2 60) = False
        \<and> pool_index (fst (insert_cache c 3 101 ''AAPL'' 2 60)) = pool_index c + 1)"
proof -
  from small_cache_insert_fails [of 3 "\<lambda>i. 0"
      "[Insert 1 100 ''AAPL'' 1 60, GetHighestPriority (\<lambda>i. 2) ''AAPL'']"]
  obtain c rs where r: "run (RadialCircularList_new (\<lambda>i. 0) 3)
         [Insert 1 100 ''AAPL'' 1 60, GetHighestPriority (\<lambda>i. 2) ''AAPL''] = Some (c, rs)"
      "rs ! 0 = Flag False"
      "\<exists>c'. insert_cache c 3 101 ''AAPL'' 2 60 = (c', False)
             \<and> pool_index c' = (if total_nodes c < 3 then pool_index c + 1 else pool_index c)"
      "total_nodes c = 0"
    by auto
  then show ?thesis by auto
qed

text \<open>
  With \<open>max_nodes = 0\<close> the call returns at the first check: no bucket is made and the pool
  index stays at zero.  With \<open>max_nodes = 5\<close>, a batch of five items is answered \<^verbatim>\<open>true\<close>
  and brings \<open>total_nodes\<close> to 5; the insert after it returns at the first check and
  leaves the pool index at 5.
\<close>

theorem small_cache_insert_counterexample:
  "insert_cache (RadialCircularList_new (\<lambda>i. 0) 0) 1 100 ''AAPL'' 1 60
     = (RadialCircularList_new (\<lambda>i. 0) 0, False)
   \<and> pool_index (RadialCircularList_new (\<lambda>i. 0) 0) = 0
   \<and> midpoint_store (midpoints (RadialCircularList_new (\<lambda>i. 0) 0)) = []
   \<and> map_option (\<lambda>r. (pool_index (fst r), total_nodes (fst r), snd r))
     (run (RadialCircularList_new (\<lambda>i. 0) 5)
        [InsertBatch (\<lambda>i. 1) [(100, ''AAPL'', 1, 60), (101, ''AAPL'', 2, 60),
                                 (102, ''AAPL'', 3, 60), (103, ''AAPL'', 4, 60),
                                 (104, ''AAPL'', 5, 60)],
         Insert 2 105 ''AAPL'' 6 60])
   = Some (5, 5, [Flag True, Flag False])"
  using insert_after_batch_capacity_five
  by (simp add: insert_cache_def RadialCircularList_new_fields)

section \<open>Batches\<close>

text \<open>
  C6.  When \<^verbatim>\<open>insert_batch\<close> passes both capacity checks, that is
  \<open>total_nodes + |items| \<le> max_nodes\<close> and \<open>pool_index + |items| \<le> max_nodes\<close>, it returns
  \<^verbatim>\<open>true\<close> and \<open>total_nodes\<close> grows by exactly \<open>|items|\<close>, whatever the pushes of the items
  return: the flag of \<^verbatim>\<open>add_node\<close> is not looked at.  In the instance below both pushes
  fail (the bucket has capacity \<open>5 / 10 = 0\<close>), the call returns \<^verbatim>\<open>true\<close>, the counter is
  2, and the key has no record.
\<close>

theorem insert_batch_returns_true:
  assumes "unat (total_nodes c) + length batch \<le> unat (max_nodes c)"
      and "unat (pool_index c) + length batch \<le> unat (max_nodes c)"
  shows "\<exists>c'. insert_batch c clock batch = (c', True)
           \<and> unat (total_nodes c') = unat (total_nodes c) + length batch
           \<and> unat (pool_index c') = unat (pool_index c) + length batch
           \<and> max_nodes c' = max_nodes c"
proof -
  let ?bs = "word_of_nat (length batch) :: u64"
  have t: "unat (total_nodes c + ?bs) = unat (total_nodes c) + length batch"
    using assms(1) by (rule unat_add_of_nat)
  have p: "unat (pool_index c + ?bs) = unat (pool_index c) + length batch"
    using assms(2) by (rule unat_add_of_nat)
  have chk1: "\<not> total_nodes c + ?bs > max_nodes c"
    using t assms(1) by (simp add: word_less_nat_alt)
  have chk2: "\<not> pool_index c + ?bs > max_nodes c"
    using p assms(2) by (simp add: word_less_nat_alt)
  let ?c1 = "c\<lparr>pool_index := pool_index c + ?bs\<rparr>"
  let ?c2 = "insert_batch_loop ?c1 clock (pool_index c) 0 batch"
  have "insert_batch c clock batch = (?c2\<lparr>total_nodes := total_nodes ?c2 + ?bs\<rparr>, True)"
    using chk1 chk2 by (simp add: insert_batch_def Let_def)
  then show ?thesis
    using insert_batch_loop_fields [of ?c1 clock "pool_index c" 0 batch] t p by simp
qed

theorem insert_batch_returns_true_witness:
  "unat (total_nodes (RadialCircularList_new (\<lambda>i. 0) 5))
     + length [(100 :: real, ''AAPL'', 1 :: i32, 60 :: real), (101, ''AAPL'', 2, 60)]
     \<le> unat (max_nodes (RadialCircularList_new (\<lambda>i. 0) 5))
   \<and> unat (pool_index (RadialCircularList_new (\<lambda>i. 0) 5))
     + length [(100 :: real, ''AAPL'', 1 :: i32, 60 :: real), (101, ''AAPL'', 2, 60)]
     \<le> unat (max_nodes (RadialCircularList_new (\<lambda>i. 0) 5))
   \<and> (\<exists>c'. insert_batch (RadialCircularList_new (\<lambda>i. 0) 5) (\<lambda>i. 7)
               [(100, ''AAPL'', 1, 60), (101, ''AAPL'', 2, 60)] = (c', True)
          \<and> unat (total_nodes c') = 2
          \<and> get_highest_priority c' (\<lambda>i. 8) ''AAPL'' = Some (c', None))"
proof -
  define c where "c = RadialCircularList_new (\<lambda>i. 0) 5"
  define b where "b = [(100 :: real, ''AAPL'', 1 :: i32, 60 :: real), (101, ''AAPL'', 2, 60)]"
  have h: "unat (total_nodes c) + length b \<le> unat (max_nodes c)"
          "unat (pool_index c) + length b \<le> unat (max_nodes c)"
    by (simp_all add: c_def b_def RadialCircularList_new_fields)
  have "\<exists>c'. insert_batch c (\<lambda>i. 7) b = (c', True)
           \<and> unat (total_nodes c') = unat (total_nodes c) + length b
           \<and> unat (pool_index c') = unat (pool_index c) + length b
           \<and> max_nodes c' = max_nodes c"
    by (rule insert_batch_returns_true [OF h])
  then obtain c' where c': "insert_batch c (\<lambda>i. 7) b = (c', True)"
      "unat (total_nodes c') = unat (total_nodes c) + length b"
    by (elim exE conjE)
  have "small_inv c" unfolding c_def by (rule small_inv_new) simp
  then have "small_inv (fst (insert_batch c (\<lambda>i. 7) b))"
    by (rule conjunct1 [OF insert_batch_small])
  then have "small_inv c'"
    by (simp add: c'(1))
  then have g: "get_highest_priority c' (\<lambda>i. 8) ''AAPL'' = Some (c', None)"
    by (rule get_highest_priority_small)
  have t: "unat (total_nodes c') = 2"
    using c'(2) by (simp add: c_def b_def RadialCircularList_new_fields)
  have "\<exists>c'. insert_batch c (\<lambda>i. 7) b = (c', True) \<and> unat (total_nodes c') = 2
          \<and> get_highest_priority c' (\<lambda>i. 8) ''AAPL'' = Some (c', None)"
    using c'(1) t g by (intro exI [of _ c'] conjI)
  then show ?thesis
    using h unfolding c_def b_def by (intro conjI)
qed

section \<open>Priority order on one key\<close>

text \<open>
  C2.  On a cache of any capacity from 30 upwards (the default of the constructor is
  1000, that of \<^verbatim>\<open>CacheConfig\<close> is 10000), three inserts under \<^verbatim>\<open>"AAPL"\<close> with priorities
  1, 3, 2 at clock readings \<open>t1\<close>, \<open>t2\<close>, \<open>t3\<close> all return \<^verbatim>\<open>true\<close>.  When none of the three
  records is expired at the readings \<open>g1 0\<close>, \<open>g2 0\<close>, \<open>g3 0\<close> of the expiry checks, four
  calls of \<^verbatim>\<open>get_highest_priority("AAPL")\<close> return pool node 1 (value 101, priority 3),
  then node 2 (priority 2), then node 0 (priority 1), then the null pointer.
\<close>

theorem priority_order_scenario:
  assumes "30 \<le> max_n"
      and "\<forall>t \<in> {t1, t2, t3}. \<forall>g \<in> {g1 0, g2 0, g3 0}. g - t \<le> 60000000000"
  shows "\<exists>c. run (RadialCircularList_new clock max_n)
           [Insert t1 100 ''AAPL'' 1 60, Insert t2 101 ''AAPL'' 3 60,
            Insert t3 100.5 ''AAPL'' 2 60,
            GetHighestPriority g1 ''AAPL'', GetHighestPriority g2 ''AAPL'',
            GetHighestPriority g3 ''AAPL'', GetHighestPriority g4 ''AAPL'']
         = Some (c, [Flag True, Flag True, Flag True, Ptr (Some 1), Ptr (Some 2), Ptr (Some 0), Ptr None])
       \<and> node_pool c ! 1 = \<lparr>node_value = 101, priority = 3, timestamp_ns = t2,
                             expiry_time_ns = 60000000000\<rparr>
       \<and> node_pool c ! 2 = \<lparr>node_value = 100.5, priority = 2, timestamp_ns = t3,
                             expiry_time_ns = 60000000000\<rparr>
       \<and> node_pool c ! 0 = \<lparr>node_value = 100, priority = 1, timestamp_ns = t1,
                             expiry_time_ns = 60000000000\<rparr>"
proof -
  have m: "30 \<le> unat max_n"
    using assms(1) by (simp add: word_le_nat_alt)
  then have w: "\<not> max_n \<le> 0" "\<not> max_n \<le> 1" "\<not> max_n \<le> 2"
    by (simp_all add: word_le_nat_alt)
  have cap: "3 \<le> unat max_n div 10" using m by simp
  have live: "\<not> 60000000000 < g1 0 - t2" "\<not> 60000000000 < g2 0 - t3" "\<not> 60000000000 < g3 0 - t1"
    using assms(2) by (simp_all add: not_less)
  show ?thesis
    using w cap m live by (simp add: exec_defs)
qed

theorem priority_order_scenario_witness:
  "(30 :: u64) \<le> 1000
   \<and> (10 :: u64) - 1 \<le> 60000000000 \<and> (10 :: u64) - 2 \<le> 60000000000
   \<and> (10 :: u64) - 3 \<le> 60000000000
   \<and> (\<exists>c. run (RadialCircularList_new (\<lambda>i. 0) 1000)
           [Insert 1 100 ''AAPL'' 1 60, Insert 2 101 ''AAPL'' 3 60,
            Insert 3 100.5 ''AAPL'' 2 60,
            GetHighestPriority (\<lambda>k. 10) ''AAPL'', GetHighestPriority (\<lambda>k. 10) ''AAPL'',
            GetHighestPriority (\<lambda>k. 10) ''AAPL'', GetHighestPriority (\<lambda>k. 10) ''AAPL'']
         = Some (c, [Flag True, Flag True, Flag True, Ptr (Some 1), Ptr (Some 2), Ptr (Some 0), Ptr None])
       \<and> node_value (node_pool c ! 1) = 101 \<and> priority (node_pool c ! 1) = 3
       \<and> priority (node_pool c ! 2) = 2 \<and> priority (node_pool c ! 0) = 1)"
proof -
  have h1: "(30 :: u64) \<le> 1000" by simp
  have h2: "\<forall>t \<in> {1, 2, 3 :: u64}. \<forall>g \<in> {10, 10, 10 :: u64}. g - t \<le> 60000000000"
    by simp
  from priority_order_scenario [of 1000 1 2 3 "\<lambda>k. 10" "\<lambda>k. 10" "\<lambda>k. 10" "\<lambda>i. 0" "\<lambda>k. 10", OF h1 h2]
  obtain c where c: "run (RadialCircularList_new (\<lambda>i. 0) 1000)
           [Insert 1 100 ''AAPL'' 1 60, Insert 2 101 ''AAPL'' 3 60,
            Insert 3 100.5 ''AAPL'' 2 60,
            GetHighestPriority (\<lambda>k. 10) ''AAPL'', GetHighestPriority (\<lambda>k. 10) ''AAPL'',
            GetHighestPriority (\<lambda>k. 10) ''AAPL'', GetHighestPriority (\<lambda>k. 10) ''AAPL'']
         = Some (c, [Flag True, Flag True, Flag True, Ptr (Some 1), Ptr (Some 2), Ptr (Some 0), Ptr None])"
     "node_pool c ! 1 = \<lparr>node_value = 101, priority = 3, timestamp_ns = 2,
                             expiry_time_ns = 60000000000\<rparr>"
     "node_pool c ! 2 = \<lparr>node_value = 100.5, priority = 2, timestamp_ns = 3,
                             expiry_time_ns = 60000000000\<rparr>"
     "node_pool c ! 0 = \<lparr>node_value = 100, priority = 1, timestamp_ns = 1,
                             expiry_time_ns = 60000000000\<rparr>"
    by (elim exE conjE)
  have "\<exists>c. run (RadialCircularList_new (\<lambda>i. 0) 1000)
           [Insert 1 100 ''AAPL'' 1 60, Insert 2 101 ''AAPL'' 3 60,
            Insert 3 100.5 ''AAPL'' 2 60,
            GetHighestPriority (\<lambda>k. 10) ''AAPL'', GetHighestPriority (\<lambda>k. 10) ''AAPL'',
            GetHighestPriority (\<lambda>k. 10) ''AAPL'', GetHighestPriority (\<lambda>k. 10) ''AAPL'']
         = Some (c, [Flag True, Flag True, Flag True, Ptr (Some 1), Ptr (Some 2), Ptr (Some 0), Ptr None])
       \<and> node_value (node_pool c ! 1) = 101 \<and> priority (node_pool c ! 1) = 3
       \<and> priority (node_pool c ! 2) = 2 \<and> priority (node_pool c ! 0) = 1"
  proof (intro exI [of _ c] conjI)
    show "node_value (node_pool c ! 1) = 101" using c(2) by simp
    show "priority (node_pool c ! 1) = 3" using c(2) by simp
    show "priority (node_pool c ! 2) = 2" using c(3) by simp
    show "priority (node_pool c ! 0) = 1" using c(4) by simp
  qed (rule c(1))
  then show ?thesis by simp
qed

section \<open>Sequences of calls: what retrieval returns\<close>

text \<open>
  The three theorems of this section are about any sequence of \<^verbatim>\<open>insert\<close>,
  \<^verbatim>\<open>insert_batch\<close>, \<^verbatim>\<open>get_highest_priority\<close> and \<^verbatim>\<open>get_highest_priority_batch\<close> calls
  on a new cache that asks for fewer than \<open>2 ^ 64\<close> pool slots in all, so that the 64-bit
  pool index has not wrapped around.  Every such sequence returns.
\<close>

text \<open>
  C1.  After any such sequence, \<^verbatim>\<open>get_highest_priority(key)\<close> returns, and it returns
  either the null pointer or a pool node whose four fields are those of a record that
  an earlier \<^verbatim>\<open>insert\<close> or \<^verbatim>\<open>insert_batch\<close> call that returned \<^verbatim>\<open>true\<close> gave under that key, and which is not
  expired at the clock reading of the expiry check that let it through:
  \<open>now_ns - timestamp_ns \<le> expiry_time_ns\<close>.  (The check is the one after as many expired
  nodes as the call has deleted.)
\<close>

theorem get_highest_priority_returns_live_record_of_key:
  assumes "requested calls < 2 ^ 64"
  shows "\<exists>c rs c' r. run (RadialCircularList_new clock0 max_n) calls = Some (c, rs)
           \<and> get_highest_priority c clock key = Some (c', r)
           \<and> (r = None \<or>
                (\<exists>i. r = Some i \<and> i < length (node_pool c')
                   \<and> node_pool c' ! i \<in> set (accepted key calls rs)
                   \<and> clock (length (freed c') - length (freed c)) - timestamp_ns (node_pool c' ! i)
                       \<le> expiry_time_ns (node_pool c' ! i)))"
proof -
  from run_new_inv [OF assms, of clock0 max_n]
  obtain c rs out where r: "run (RadialCircularList_new clock0 max_n) calls = Some (c, rs)"
      "cache_inv (\<lambda>k. set (accepted k calls rs)) out c"
    by blast
  from get_highest_priority_cache_inv [OF r(2), of clock key]
  obtain c' p dels where g: "get_highest_priority c clock key = Some (c', p)"
      "freed c' = freed c @ dels"
      "cache_inv (\<lambda>k. set (accepted k calls rs)) (out \<union> set dels \<union> set (ptr_nodes p)) c'"
      "\<forall>i. p = Some i \<longrightarrow> i < unat (max_nodes c') \<and> i < unat (pool_index c')
                  \<and> node_pool c' ! i \<in> set (accepted key calls rs)
                  \<and> \<not> is_expired (node_pool c' ! i) (clock (length dels))"
    by blast
  have len: "length (node_pool c') = unat (max_nodes c')"
    using g(3) by (simp add: cache_inv_def core_inv_def)
  have d: "length (freed c') - length (freed c) = length dels"
    using g(2) by simp
  have "p = None \<or>
          (\<exists>i. p = Some i \<and> i < length (node_pool c')
             \<and> node_pool c' ! i \<in> set (accepted key calls rs)
             \<and> clock (length (freed c') - length (freed c)) - timestamp_ns (node_pool c' ! i)
                 \<le> expiry_time_ns (node_pool c' ! i))"
  proof (cases p)
    case None
    then show ?thesis by simp
  next
    case (Some i)
    then show ?thesis
      using g(4) len d by (simp add: is_expired_def not_less)
  qed
  then show ?thesis
    using r(1) g(1) by blast
qed

theorem get_highest_priority_returns_live_record_of_key_witness:
  "requested [Insert 1 100 ''AAPL'' 1 60] < 2 ^ 64
   \<and> (\<exists>c rs c'. run (RadialCircularList_new (\<lambda>i. 0) 1000) [Insert 1 100 ''AAPL'' 1 60] = Some (c, rs)
         \<and> get_highest_priority c (\<lambda>k. 10) ''AAPL'' = Some (c', Some 0)
         \<and> node_pool c' ! 0 \<in> set (accepted ''AAPL'' [Insert 1 100 ''AAPL'' 1 60] rs)
         \<and> (10 :: u64) - timestamp_ns (node_pool c' ! 0) \<le> expiry_time_ns (node_pool c' ! 0))"
proof -
  have h: "requested [Insert 1 100 ''AAPL'' 1 60] < 2 ^ 64"
    by (simp add: requested_def)
  from get_highest_priority_returns_live_record_of_key
         [OF h, of "\<lambda>i. 0" 1000 "\<lambda>k. 10" "''AAPL''"]
  obtain c rs c' r where t:
      "run (RadialCircularList_new (\<lambda>i. 0) 1000) [Insert 1 100 ''AAPL'' 1 60] = Some (c, rs)"
      "get_highest_priority c (\<lambda>k. 10) ''AAPL'' = Some (c', r)"
      "r = None \<or>
         (\<exists>i. r = Some i \<and> i < length (node_pool c')
            \<and> node_pool c' ! i \<in> set (accepted ''AAPL'' [Insert 1 100 ''AAPL'' 1 60] rs)
            \<and> (\<lambda>k. 10 :: u64) (length (freed c') - length (freed c)) - timestamp_ns (node_pool c' ! i)
                \<le> expiry_time_ns (node_pool c' ! i))"
    by blast
  have "r = Some 0"
    using t(1,2) by (auto simp: exec_defs)
  then show ?thesis
    using h t by auto
qed

text \<open>
  C8.  In the replies of any such sequence no pool node occurs twice, and at the end
  none of the returned nodes is in a cell of any heap.
\<close>

theorem no_record_returned_twice:
  assumes "requested calls < 2 ^ 64"
  shows "\<exists>c rs. run (RadialCircularList_new clock max_n) calls = Some (c, rs)
           \<and> distinct (returned rs)
           \<and> (\<forall>i \<in> set (returned rs). occ c i = 0)"
proof -
  from run_new_inv [OF assms, of clock max_n]
  obtain c rs out where r: "run (RadialCircularList_new clock max_n) calls = Some (c, rs)"
      "cache_inv (\<lambda>k. set (accepted k calls rs)) out c"
      "set (returned rs) \<subseteq> out" "distinct (returned rs)"
    by blast
  have "\<forall>i \<in> out. occ c i = 0"
    using r(2) by (simp add: cache_inv_def core_inv_def)
  then have "\<forall>i \<in> set (returned rs). occ c i = 0"
    using r(3) by blast
  then show ?thesis
    using r(1,4) by blast
qed

theorem no_record_returned_twice_witness:
  "requested [Insert 1 100 ''AAPL'' 1 60, GetHighestPriority (\<lambda>k. 10) ''AAPL'',
              GetHighestPriority (\<lambda>k. 10) ''AAPL''] < 2 ^ 64
   \<and> (\<exists>c rs. run (RadialCircularList_new (\<lambda>i. 0) 1000)
                 [Insert 1 100 ''AAPL'' 1 60, GetHighestPriority (\<lambda>k. 10) ''AAPL'',
                  GetHighestPriority (\<lambda>k. 10) ''AAPL''] = Some (c, rs)
         \<and> rs = [Flag True, Ptr (Some 0), Ptr None]
         \<and> distinct (returned rs) \<and> occ c 0 = 0)"
proof -
  have h: "requested [Insert 1 100 ''AAPL'' 1 60, GetHighestPriority (\<lambda>k. 10) ''AAPL'',
              GetHighestPriority (\<lambda>k. 10) ''AAPL''] < 2 ^ 64"
    by (simp add: requested_def)
  from no_record_returned_twice [OF h, of "\<lambda>i. 0" 1000]
  obtain c rs where t:
      "run (RadialCircularList_new (\<lambda>i. 0) 1000)
                 [Insert 1 100 ''AAPL'' 1 60, GetHighestPriority (\<lambda>k. 10) ''AAPL'',
                  GetHighestPriority (\<lambda>k. 10) ''AAPL''] = Some (c, rs)"
      "distinct (returned rs)" "\<forall>i \<in> set (returned rs). occ c i = 0"
    by blast
  have rs: "rs = [Flag True, Ptr (Some 0), Ptr None]"
    using t(1) by (auto simp: exec_defs)
  then have "occ c 0 = 0"
    using t(3) by (simp add: returned_def)
  then show ?thesis
    using h t(1,2) rs by blast
qed

section \<open>The pool index\<close>

text \<open>
  C5 (as amended).  The pool index is not bounded by \<open>max_nodes\<close>: every call of
  \<^verbatim>\<open>insert\<close> that passes the check of \<open>total_nodes\<close> adds one to it before the index is
  compared with \<open>max_nodes\<close>.  After any sequence of calls as above, the index is at most
  the number of slots that the calls asked for; what stays within \<open>max_nodes\<close> is
  \<open>total_nodes\<close> and every pool node held in a bucket, which is also below the pool index.
\<close>

theorem nodes_in_use_below_max_nodes:
  assumes "requested calls < 2 ^ 64"
  shows "\<exists>c rs. run (RadialCircularList_new clock max_n) calls = Some (c, rs)
           \<and> max_nodes c = max_n \<and> length (node_pool c) = unat max_n
           \<and> total_nodes c \<le> max_n
           \<and> unat (pool_index c) \<le> requested calls
           \<and> (\<forall>m \<in> set (midpoint_store (midpoints c)). \<forall>i \<in># slots (nodes m).
                 i < unat max_n \<and> i < unat (pool_index c))"
proof -
  from run_new_inv [OF assms, of clock max_n]
  obtain c rs out where r: "run (RadialCircularList_new clock max_n) calls = Some (c, rs)"
      "cache_inv (\<lambda>k. set (accepted k calls rs)) out c"
      "unat (pool_index c) \<le> requested calls" "max_nodes c = max_n"
    by blast
  have "length (node_pool c) = unat max_n" "total_nodes c \<le> max_n"
    using r(2,4) by (simp_all add: cache_inv_def core_inv_def)
  moreover have "\<forall>m \<in> set (midpoint_store (midpoints c)). \<forall>i \<in># slots (nodes m).
                 i < unat max_n \<and> i < unat (pool_index c)"
    using r(2,4) by (auto simp: cache_inv_def core_inv_def)
  ultimately show ?thesis
    using r(1,3,4) by blast
qed

theorem nodes_in_use_below_max_nodes_witness:
  "requested [Insert 1 100 ''AAPL'' 1 60, Insert 2 101 ''AAPL'' 3 60,
              Insert 3 100.5 ''AAPL'' 2 60, Insert 4 102 ''AAPL'' 4 60] < 2 ^ 64
   \<and> (\<exists>c rs. run (RadialCircularList_new (\<lambda>i. 0) 3)
                 [Insert 1 100 ''AAPL'' 1 60, Insert 2 101 ''AAPL'' 3 60,
                  Insert 3 100.5 ''AAPL'' 2 60, Insert 4 102 ''AAPL'' 4 60] = Some (c, rs)
         \<and> total_nodes c \<le> 3 \<and> unat (pool_index c) \<le> 4 \<and> pool_index c = 4)"
proof -
  have h: "requested [Insert 1 100 ''AAPL'' 1 60, Insert 2 101 ''AAPL'' 3 60,
              Insert 3 100.5 ''AAPL'' 2 60, Insert 4 102 ''AAPL'' 4 60] < 2 ^ 64"
    by (simp add: requested_def)
  from nodes_in_use_below_max_nodes [OF h, of "\<lambda>i. 0" 3]
  obtain c rs where t:
      "run (RadialCircularList_new (\<lambda>i. 0) 3)
                 [Insert 1 100 ''AAPL'' 1 60, Insert 2 101 ''AAPL'' 3 60,
                  Insert 3 100.5 ''AAPL'' 2 60, Insert 4 102 ''AAPL'' 4 60] = Some (c, rs)"
      "total_nodes c \<le> 3"
      "unat (pool_index c) \<le> requested [Insert 1 100 ''AAPL'' 1 60, Insert 2 101 ''AAPL'' 3 60,
              Insert 3 100.5 ''AAPL'' 2 60, Insert 4 102 ''AAPL'' 4 60]"
    by blast
  have "pool_index c = 4"
    using four_inserts_capacity_three unfolding t(1) by simp
  moreover have "unat (pool_index c) \<le> 4"
    using t(3) by (simp add: requested_def)
  ultimately show ?thesis
    using h t(1,2) by blast
qed

text \<open>
  Four inserts on a cache with \<open>max_nodes = 3\<close> leave the pool index at 4, and eleven
  inserts under one key on a cache with \<open>max_nodes = 10\<close> (the first is accepted, the
  others find the bucket full) leave it at 11.
\<close>

theorem pool_index_exceeds_max_nodes_counterexample:
  "map_option (\<lambda>r. (pool_index (fst r), max_nodes (fst r), snd r))
     (run (RadialCircularList_new (\<lambda>i. 0) 3)
        [Insert 1 100 ''AAPL'' 1 60, Insert 2 101 ''AAPL'' 3 60,
         Insert 3 100.5 ''AAPL'' 2 60, Insert 4 102 ''AAPL'' 4 60])
   = Some (4, 3, [Flag False, Flag False, Flag False, Flag False])
   \<and> map_option (\<lambda>r. (pool_index (fst r), max_nodes (fst r), total_nodes (fst r), snd r))
     (run (RadialCircularList_new (\<lambda>i. 0) 10)
        [Insert 1 100 ''AAPL'' 1 60, Insert 2 101 ''AAPL'' 2 60,
         Insert 3 102 ''AAPL'' 3 60, Insert 4 103 ''AAPL'' 4 60,
         Insert 5 104 ''AAPL'' 5 60, Insert 6 105 ''AAPL'' 6 60,
         Insert 7 106 ''AAPL'' 7 60, Insert 8 107 ''AAPL'' 8 60,
         Insert 9 108 ''AAPL'' 9 60, Insert 10 109 ''AAPL'' 10 60,
         Insert 11 110 ''AAPL'' 11 60])
   = Some (11, 10, 1, [Flag True, Flag False, Flag False, Flag False, Flag False, Flag False,
                       Flag False, Flag False, Flag False, Flag False, Flag False])"
  by (rule conjI [OF four_inserts_capacity_three eleven_inserts_capacity_ten])

section \<open>Two threads creating the bucket of one key\<close>

text \<open>
  C4.  The claim is that a thread whose compare-exchange on the shard head fails
  traverses the list again and returns the bucket that the other thread has installed,
  so that a key never has two buckets.  The source does not traverse again: after a
  failed compare-exchange it loads the head, links its own node in front of it and
  tries again.  In the run below on an empty index, threads 0 and 1 both look for
  \<^verbatim>\<open>"AAPL"\<close>, find nothing and make a node; both load the null head; thread 0 installs
  its node; the compare-exchange of thread 1 fails (after six steps it is back at the
  load); it loads the new head and installs its node in front.  Thread 0 has returned
  bucket 0, thread 1 bucket 1; both nodes are in the shard, and \<^verbatim>\<open>get\<close> finds bucket 1.
\<close>

theorem get_or_create_race_installs_two_buckets:
  "interleave [(''AAPL'', 100), (''AAPL'', 100)] [0, 1, 0, 1, 0, 1] (LockFreeHashTable_new 100, [Start, Start])
     = (\<lparr>buckets = (replicate 64 [])[11 := [(''AAPL'', 0)]],
         midpoint_store = [MidpointNode_new 100, MidpointNode_new 100]\<rparr>,
        [Done 0, Allocated 1])
   \<and> interleave [(''AAPL'', 100), (''AAPL'', 100)] [0, 1, 0, 1, 0, 1, 1, 1]
         (LockFreeHashTable_new 100, [Start, Start])
     = (\<lparr>buckets = (replicate 64 [])[11 := [(''AAPL'', 1), (''AAPL'', 0)]],
         midpoint_store = [MidpointNode_new 100, MidpointNode_new 100]\<rparr>,
        [Done 0, Done 1])
   \<and> (''AAPL'', 0) \<in> entries (fst (interleave [(''AAPL'', 100), (''AAPL'', 100)]
           [0, 1, 0, 1, 0, 1, 1, 1] (LockFreeHashTable_new 100, [Start, Start])))
   \<and> (''AAPL'', 1) \<in> entries (fst (interleave [(''AAPL'', 100), (''AAPL'', 100)]
           [0, 1, 0, 1, 0, 1, 1, 1] (LockFreeHashTable_new 100, [Start, Start])))
   \<and> get (fst (interleave [(''AAPL'', 100), (''AAPL'', 100)]
           [0, 1, 0, 1, 0, 1, 1, 1] (LockFreeHashTable_new 100, [Start, Start]))) ''AAPL'' = Some 1"
proof -
  let ?t = "\<lparr>buckets = (replicate 64 [])[11 := [(''AAPL'', 1), (''AAPL'', 0)]],
         midpoint_store = [MidpointNode_new 100, MidpointNode_new 100]\<rparr>"
  have mid: "interleave [(''AAPL'', 100), (''AAPL'', 100)] [0, 1, 0, 1, 0, 1]
         (LockFreeHashTable_new 100, [Start, Start])
     = (\<lparr>buckets = (replicate 64 [])[11 := [(''AAPL'', 0)]],
         midpoint_store = [MidpointNode_new 100, MidpointNode_new 100]\<rparr>,
        [Done 0, Allocated 1])"
    by (simp add: LockFreeHashTable_new_def BUCKETS_def hash_AAPL)
  have fin: "interleave [(''AAPL'', 100), (''AAPL'', 100)] [0, 1, 0, 1, 0, 1, 1, 1]
         (LockFreeHashTable_new 100, [Start, Start]) = (?t, [Done 0, Done 1])"
    by (simp add: LockFreeHashTable_new_def BUCKETS_def hash_AAPL)
  have e: "(''AAPL'', 0) \<in> entries ?t" "(''AAPL'', 1) \<in> entries ?t"
    by (rule entries_nth [where i = 11]; simp)+
  have g: "get ?t ''AAPL'' = Some 1"
    by (simp add: get_def hash_AAPL)
  show ?thesis
    unfolding fin using mid e g by simp
qed

end
